theory Spec2Isabelle
  imports Main
begin

section \<open>A1 notation: the data model\<close>

text \<open>
  The library parses and formats spreadsheet references such as \<open>Sheet1!A1:B2\<close>.
  The embedding follows the current module (the class \<open>A1Notation\<close> with the constructor
  \<open>(sheetName, left, top, right, bottom)\<close>) and, where the two differ, the earlier
  revision \<open>mod.ts\<close> (constructor \<open>(sheetName, top, bottom, left, right)\<close>), whose
  definitions carry the suffix \<open>_old\<close>.

  Conventions of the embedding:
  \<^item> an optional field or argument (\<open>undefined\<close> when absent) is an \<open>option\<close>;
  \<^item> a JavaScript number is an \<open>int\<close>. Column numbers, and row numbers up to \<open>2 ^ 53\<close>,
    are exact integers in the program as well; fractional values, \<open>NaN\<close> and the rounding
    of longer digit runs to the nearest double are outside the model, and the theorems
    that depend on a row value say so with a bound;
  \<^item> a string is a \<open>char list\<close>. The parser iterates over code points and treats every
    character that is not an ASCII letter, a digit, a quote, \<open>!\<close> or \<open>:\<close> alike;
  \<^item> an exception is a value \<open>Inl e\<close> of a sum type; a call that never returns is \<open>None\<close>.
\<close>

record A1Notation =
  sheetName :: "string option"
  left :: "int option"
  top :: "int option"
  right :: "int option"
  bottom :: "int option"

record InterimResult =
  ir_sheetName :: "string option"
  ir_cell1 :: "string option"
  ir_cell2 :: "string option"

record Cell =
  col :: "int option"
  row :: "int option"

record Parser =
  buf :: string
  index :: nat

text \<open>The messages of the \<open>Error\<close>s the module throws; the argument is the text
  interpolated into the message.\<close>

datatype error =
    UnexpectedCharacter string
  | ExpectedBang string
  | ExpectedColon string
  | ExpectedEOF string
  | ExpectedBangOrColon string
  | InvalidSheetName
  | InvalidCellName
  | InvalidCellNameOf string
  | InvalidCharacter string

text \<open>Truthiness of an optional string and of an optional number, as tested by
  \<open>if (x)\<close> and \<open>x || y\<close>: \<open>undefined\<close>, the empty string and \<open>0\<close> are falsy.\<close>

definition truthy_str :: "string option \<Rightarrow> bool" where
  "truthy_str x = (case x of None \<Rightarrow> False | Some s \<Rightarrow> s \<noteq> [])"

definition truthy_num :: "int option \<Rightarrow> bool" where
  "truthy_num x = (case x of None \<Rightarrow> False | Some n \<Rightarrow> n \<noteq> 0)"

section \<open>Characters and the patterns\<close>

definition quote :: char where
  "quote = CHR 0x27"

definition EOF :: string where
  "EOF = ''EOF''"

definition charCodeA :: int where
  "charCodeA = of_char (CHR ''A'')"

definition charCodeZ :: int where
  "charCodeZ = of_char (CHR ''Z'')"

definition charCode_a :: int where
  "charCode_a = of_char (CHR ''a'')"

definition charCode_z :: int where
  "charCode_z = of_char (CHR ''z'')"

definition is_upper :: "char \<Rightarrow> bool" where
  "is_upper c = (charCodeA \<le> of_char c \<and> (of_char c :: int) \<le> charCodeZ)"

definition is_lower :: "char \<Rightarrow> bool" where
  "is_lower c = (charCode_a \<le> of_char c \<and> (of_char c :: int) \<le> charCode_z)"

definition is_letter :: "char \<Rightarrow> bool" where
  "is_letter c = (is_lower c \<or> is_upper c)"

definition is_digit :: "char \<Rightarrow> bool" where
  "is_digit c = ((48::int) \<le> of_char c \<and> (of_char c :: int) \<le> 57)"

definition is_alnum :: "char \<Rightarrow> bool" where
  "is_alnum c = (is_letter c \<or> is_digit c)"

text \<open>\<open>/[a-z0-9]/i.test(ch)\<close> and \<open>/[a-zA-Z0-9]/.test(ch)\<close>: the pattern is not anchored,
  so it holds when some character of \<open>ch\<close> is an ASCII letter or digit. The argument is
  what \<open>peek\<close> returned: one character, or the three letters of the end marker.\<close>

definition test_alnum :: "string \<Rightarrow> bool" where
  "test_alnum ch = list_ex is_alnum ch"

text \<open>\<open>/^[a-z0-9]+$/i.test(s)\<close>\<close>

definition test_all_alnum :: "string \<Rightarrow> bool" where
  "test_all_alnum s = (s \<noteq> [] \<and> list_all is_alnum s)"

text \<open>\<open>s.match(/^([a-z]{0,3})([0-9]*)$/i)\<close>: the first group takes greedily up to three
  letters, the second the digits that follow, and the match must end the string. Giving
  a letter back to the second group cannot help, since a letter is not a digit, so the
  greedy split is the only one. The result is the pair of the two groups.\<close>

definition match_cell :: "string \<Rightarrow> (string \<times> string) option" where
  "match_cell s =
     (let m1 = takeWhile is_letter (take 3 s);
          m2 = drop (length m1) s
      in if list_all is_digit m2 then Some (m1, m2) else None)"

text \<open>\<open>reCell.test(s)\<close> with \<open>reCell = /^([a-z]{0,3})([0-9]+)$/i\<close>: as above, with at
  least one digit.\<close>

definition reCell_test :: "string \<Rightarrow> bool" where
  "reCell_test s =
     (let m1 = takeWhile is_letter (take 3 s);
          m2 = drop (length m1) s
      in m2 \<noteq> [] \<and> list_all is_digit m2)"

section \<open>The column codec\<close>

fun fromBase26_loop :: "int \<Rightarrow> string \<Rightarrow> error + int" where
  "fromBase26_loop n [] = Inr n"
| "fromBase26_loop n (ch # s) =
     (let code = (of_char ch :: int)
      in if charCodeA \<le> code \<and> code \<le> charCodeZ
           then fromBase26_loop (n * 26 + code - charCodeA + 1) s
         else if charCode_a \<le> code \<and> code \<le> charCode_z
           then fromBase26_loop (n * 26 + code - charCode_a + 1) s
         else Inl (InvalidCharacter [ch]))"

definition fromBase26 :: "string \<Rightarrow> error + int" where
  "fromBase26 s = fromBase26_loop 0 s"

function toBase26_loop :: "int \<Rightarrow> string \<Rightarrow> string" where
  "toBase26_loop n s =
     (if n > 0
      then toBase26_loop ((n - 1) div 26) (char_of (charCodeA + (n - 1) mod 26) # s)
      else s)"
  by pat_completeness auto
termination
  by (relation "measure (\<lambda>(n, s). nat n)") auto

declare toBase26_loop.simps [simp del]

definition toBase26 :: "int \<Rightarrow> string" where
  "toBase26 num = toBase26_loop num []"

section \<open>Built-in conversions between numbers and decimal text\<close>

text \<open>\<open>parseInt(m, 10)\<close> on a run of decimal digits.\<close>

definition parseInt :: "string \<Rightarrow> int" where
  "parseInt m = foldl (\<lambda>n c. n * 10 + (of_char c - 48)) 0 m"

text \<open>\<open>n.toString()\<close> on an integer: the decimal digits, after a minus sign when the
  number is negative.\<close>

fun digits :: "nat \<Rightarrow> string" where
  "digits n = (if n < 10 then [char_of (48 + n)] else digits (n div 10) @ [char_of (48 + n mod 10)])"

declare digits.simps [simp del]

definition num_toString :: "int \<Rightarrow> string" where
  "num_toString n = (if n < 0 then ''-'' @ digits (nat (- n)) else digits (nat n))"

section \<open>The scanner and the grammar\<close>

definition peek :: "Parser \<Rightarrow> string" where
  "peek p = (if index p < length (buf p) then [buf p ! index p] else EOF)"

definition next_ch :: "Parser \<Rightarrow> Parser" where
  "next_ch p = p\<lparr>index := index p + 1\<rparr>"

function parseName_loop :: "Parser \<Rightarrow> string \<Rightarrow> string \<times> Parser" where
  "parseName_loop p name =
     (if peek p = EOF \<or> \<not> test_alnum (peek p) then (name, p)
      else parseName_loop (next_ch p) (name @ peek p))"
  by pat_completeness auto
termination
  by (relation "measure (\<lambda>(p, name). length (buf p) - index p)")
     (auto simp: next_ch_def peek_def split: if_splits)

declare parseName_loop.simps [simp del]

definition parseName :: "Parser \<Rightarrow> error + string \<times> Parser" where
  "parseName p =
     (case parseName_loop p [] of
        (name, p') \<Rightarrow> if name = [] then Inl InvalidCellName else Inr (name, p'))"

text \<open>The search for the closing quote has no test for the end of the input, so the
  loop need not end: the result is \<open>None\<close> when it does not.\<close>

partial_function (option) parseQuotedName_loop :: "Parser \<Rightarrow> string \<Rightarrow> (string \<times> Parser) option"
where
  "parseQuotedName_loop p name =
     (if peek p = [quote]
      then (if peek (next_ch p) \<noteq> [quote] then Some (name, next_ch p)
            else parseQuotedName_loop (next_ch (next_ch p)) (name @ peek p))
      else parseQuotedName_loop (next_ch p) (name @ peek p))"

declare parseQuotedName_loop.simps [code]

definition parseQuotedName :: "Parser \<Rightarrow> (error + string \<times> Parser) option" where
  "parseQuotedName p =
     (if peek p \<noteq> [quote] then Some (Inl (UnexpectedCharacter (peek p)))
      else case parseQuotedName_loop (next_ch p) [] of
             None \<Rightarrow> None
           | Some (name, p') \<Rightarrow>
               if name = [] then Some (Inl InvalidSheetName) else Some (Inr (name, p')))"

definition parseSheetNameAndCell :: "Parser \<Rightarrow> (error + InterimResult) option" where
  "parseSheetNameAndCell p =
     (case parseQuotedName p of
        None \<Rightarrow> None
      | Some (Inl e) \<Rightarrow> Some (Inl e)
      | Some (Inr (name, p1)) \<Rightarrow> Some
         (if peek p1 = EOF
            then Inr \<lparr>ir_sheetName = Some name, ir_cell1 = None, ir_cell2 = None\<rparr>
          else if peek p1 \<noteq> ''!'' then Inl (ExpectedBang (peek p1))
          else case parseName (next_ch p1) of
                 Inl e \<Rightarrow> Inl e
               | Inr (cell1, p2) \<Rightarrow>
                   if peek p2 = EOF
                     then Inr \<lparr>ir_sheetName = Some name, ir_cell1 = Some cell1, ir_cell2 = Some cell1\<rparr>
                   else if peek p2 \<noteq> '':'' then Inl (ExpectedColon (peek p2))
                   else case parseName (next_ch p2) of
                          Inl e \<Rightarrow> Inl e
                        | Inr (cell2, p3) \<Rightarrow>
                            if peek p3 \<noteq> EOF then Inl (ExpectedEOF (peek p3))
                            else Inr \<lparr>ir_sheetName = Some name, ir_cell1 = Some cell1,
                                      ir_cell2 = Some cell2\<rparr>))"

definition Parser_parseCell :: "Parser \<Rightarrow> error + InterimResult" where
  "Parser_parseCell p =
     (case parseName p of
        Inl e \<Rightarrow> Inl e
      | Inr (name, p1) \<Rightarrow>
          if peek p1 = EOF
            then (if reCell_test name
                  then Inr \<lparr>ir_sheetName = None, ir_cell1 = Some name, ir_cell2 = Some name\<rparr>
                  else Inr \<lparr>ir_sheetName = Some name, ir_cell1 = None, ir_cell2 = None\<rparr>)
          else if peek p1 = ''!''
            then (case parseName (next_ch p1) of
                    Inl e \<Rightarrow> Inl e
                  | Inr (cell1, p2) \<Rightarrow>
                      if peek p2 = EOF
                        then Inr \<lparr>ir_sheetName = Some name, ir_cell1 = Some cell1,
                                  ir_cell2 = Some cell1\<rparr>
                      else if peek p2 = '':''
                        then (case parseName (next_ch p2) of
                                Inl e \<Rightarrow> Inl e
                              | Inr (cell2, p3) \<Rightarrow>
                                  if peek p3 \<noteq> EOF then Inl (ExpectedEOF (peek p3))
                                  else Inr \<lparr>ir_sheetName = Some name, ir_cell1 = Some cell1,
                                            ir_cell2 = Some cell2\<rparr>)
                      else Inl (UnexpectedCharacter (peek p2)))
          else if peek p1 = '':''
            then (case parseName (next_ch p1) of
                    Inl e \<Rightarrow> Inl e
                  | Inr (cell2, p2) \<Rightarrow>
                      if peek p2 \<noteq> EOF then Inl (ExpectedEOF (peek p2))
                      else Inr \<lparr>ir_sheetName = None, ir_cell1 = Some name, ir_cell2 = Some cell2\<rparr>)
          else Inl (ExpectedBangOrColon (peek p1)))"

definition Parser_parse :: "Parser \<Rightarrow> (error + InterimResult) option" where
  "Parser_parse p =
     (if peek p = [quote] then parseSheetNameAndCell p
      else if test_alnum (peek p) then Some (Parser_parseCell p)
      else Some (Inl (UnexpectedCharacter (peek p))))"

section \<open>The cell decoder\<close>

definition parseCell :: "string \<Rightarrow> error + Cell" where
  "parseCell s =
     (case match_cell s of
        None \<Rightarrow> Inl (InvalidCellNameOf s)
      | Some (m1, m2) \<Rightarrow>
          (case (if m1 \<noteq> [] then map_sum id Some (fromBase26 m1) else Inr None) of
             Inl e \<Rightarrow> Inl e
           | Inr c \<Rightarrow> Inr \<lparr>col = c, row = (if m2 \<noteq> [] then Some (parseInt m2) else None)\<rparr>))"

text \<open>\<open>if (cell) { const { row, col } = parseCell(cell); ... }\<close>: the bounds a fragment
  gives, none when the fragment is absent or empty.\<close>

definition cell_bounds :: "string option \<Rightarrow> error + Cell" where
  "cell_bounds x =
     (if truthy_str x then (case x of Some s \<Rightarrow> parseCell s | None \<Rightarrow> Inr \<lparr>col = None, row = None\<rparr>)
      else Inr \<lparr>col = None, row = None\<rparr>)"

section \<open>The range: construction, parsing, formatting\<close>

definition A1Notation_new ::
  "string option \<Rightarrow> int option \<Rightarrow> int option \<Rightarrow> int option \<Rightarrow> int option \<Rightarrow> A1Notation" where
  "A1Notation_new sn l t r b =
     (if r = None \<and> b = None
      then \<lparr>sheetName = sn, left = l, top = t, right = l, bottom = t\<rparr>
      else \<lparr>sheetName = sn, left = l, top = t, right = r, bottom = b\<rparr>)"

definition parse :: "string \<Rightarrow> (error + A1Notation) option" where
  "parse s =
     (case Parser_parse \<lparr>buf = s, index = 0\<rparr> of
        None \<Rightarrow> None
      | Some (Inl e) \<Rightarrow> Some (Inl e)
      | Some (Inr ir) \<Rightarrow> Some
         (case cell_bounds (ir_cell1 ir) of
            Inl e \<Rightarrow> Inl e
          | Inr c1 \<Rightarrow>
             (case cell_bounds (ir_cell2 ir) of
                Inl e \<Rightarrow> Inl e
              | Inr c2 \<Rightarrow>
                  Inr (A1Notation_new (ir_sheetName ir) (col c1) (row c1) (col c2) (row c2)))))"

text \<open>\<open>s.replace(/'/g, "''")\<close>\<close>

definition replace_quotes :: "string \<Rightarrow> string" where
  "replace_quotes s = concat (map (\<lambda>c. if c = quote then [quote, quote] else [c]) s)"

definition escapeSheetName :: "string \<Rightarrow> string" where
  "escapeSheetName s =
     (if reCell_test s then [quote] @ s @ [quote]
      else if test_all_alnum s then s
      else [quote] @ replace_quotes s @ [quote])"

text \<open>\<open>if (this.left) { cell1 += toBase26(this.left); }\<close> and
  \<open>if (this.top) { cell1 += this.top.toString(); }\<close>\<close>

definition col_text :: "int option \<Rightarrow> string" where
  "col_text x = (case x of None \<Rightarrow> [] | Some n \<Rightarrow> if n \<noteq> 0 then toBase26 n else [])"

definition row_text :: "int option \<Rightarrow> string" where
  "row_text x = (case x of None \<Rightarrow> [] | Some n \<Rightarrow> if n \<noteq> 0 then num_toString n else [])"

definition toString :: "A1Notation \<Rightarrow> string" where
  "toString a =
     (let cell1 = col_text (left a) @ row_text (top a);
          cell2 = col_text (right a) @ row_text (bottom a);
          cell =
            (if truthy_num (left a) \<and> truthy_num (right a) \<and> truthy_num (top a)
                \<and> truthy_num (bottom a)
             then (if left a = right a \<and> top a = bottom a then cell1
                   else cell1 @ '':'' @ cell2)
             else if cell1 \<noteq> [] \<and> cell2 \<noteq> [] then cell1 @ '':'' @ cell2
             else cell1)
      in case sheetName a of
           None \<Rightarrow> cell
         | Some sn \<Rightarrow>
             if sn \<noteq> []
             then (if cell \<noteq> [] then escapeSheetName sn @ ''!'' @ cell else escapeSheetName sn)
             else cell)"

section \<open>The earlier revision\<close>

text \<open>\<open>x || y\<close> on optional numbers.\<close>

definition num_or :: "int option \<Rightarrow> int option \<Rightarrow> int option" where
  "num_or x y = (if truthy_num x then x else y)"

definition A1Notation_new_old ::
  "string option \<Rightarrow> int option \<Rightarrow> int option \<Rightarrow> int option \<Rightarrow> int option \<Rightarrow> A1Notation" where
  "A1Notation_new_old sn t b l r =
     \<lparr>sheetName = sn, left = num_or l t, top = t, right = num_or r l, bottom = b\<rparr>"

definition Parser_parse_old :: "Parser \<Rightarrow> (error + InterimResult) option" where
  "Parser_parse_old p =
     (if peek p = [quote]
      then (case parseQuotedName p of
              None \<Rightarrow> None
            | Some (Inl e) \<Rightarrow> Some (Inl e)
            | Some (Inr (name, p1)) \<Rightarrow> Some
               (if peek p1 = EOF
                  then Inr \<lparr>ir_sheetName = Some name, ir_cell1 = None, ir_cell2 = None\<rparr>
                else if peek p1 \<noteq> ''!'' then Inl (ExpectedBang (peek p1))
                else case parseName (next_ch p1) of
                       Inl e \<Rightarrow> Inl e
                     | Inr (cell1, p2) \<Rightarrow>
                         if peek p2 = EOF
                           then Inr \<lparr>ir_sheetName = Some name, ir_cell1 = Some cell1,
                                     ir_cell2 = None\<rparr>
                         else if peek p2 \<noteq> '':'' then Inl (ExpectedColon (peek p2))
                         else case parseName (next_ch p2) of
                                Inl e \<Rightarrow> Inl e
                              | Inr (cell2, p3) \<Rightarrow>
                                  if peek p3 \<noteq> EOF then Inl (ExpectedEOF (peek p3))
                                  else Inr \<lparr>ir_sheetName = Some name, ir_cell1 = Some cell1,
                                            ir_cell2 = Some cell2\<rparr>))
      else if test_alnum (peek p) then Some (Parser_parseCell p)
      else Some (Inl (UnexpectedCharacter (peek p))))"

definition parse_old :: "string \<Rightarrow> (error + A1Notation) option" where
  "parse_old s =
     (case Parser_parse_old \<lparr>buf = s, index = 0\<rparr> of
        None \<Rightarrow> None
      | Some (Inl e) \<Rightarrow> Some (Inl e)
      | Some (Inr ir) \<Rightarrow> Some
         (let a0 = A1Notation_new_old None None None None None;
              a1 = (if truthy_str (ir_sheetName ir) then a0\<lparr>sheetName := ir_sheetName ir\<rparr> else a0)
          in case (if truthy_str (ir_cell1 ir)
                   then map_sum id (\<lambda>c. a1\<lparr>top := row c, left := col c\<rparr>) (cell_bounds (ir_cell1 ir))
                   else Inr a1) of
               Inl e \<Rightarrow> Inl e
             | Inr a2 \<Rightarrow>
                 (if truthy_str (ir_cell2 ir)
                  then map_sum id (\<lambda>c. a2\<lparr>bottom := row c, right := col c\<rparr>) (cell_bounds (ir_cell2 ir))
                  else Inr a2)))"

section \<open>Auxiliary notions used in the statements and proofs\<close>

text \<open>The part of the input the scanner has not consumed yet, and the scanner moved
  forward by \<open>n\<close> characters.\<close>

definition rest :: "Parser \<Rightarrow> string" where
  "rest p = drop (index p) (buf p)"

definition advance :: "nat \<Rightarrow> Parser \<Rightarrow> Parser" where
  "advance n p = p\<lparr>index := index p + n\<rparr>"

text \<open>Changing the case of the ASCII letters of a text.\<close>

definition to_upper :: "char \<Rightarrow> char" where
  "to_upper c = (if is_lower c then char_of (of_char c - (32::int)) else c)"

definition to_lower :: "char \<Rightarrow> char" where
  "to_lower c = (if is_upper c then char_of (of_char c + (32::int)) else c)"

text \<open>A row number that is set, is not zero and is an integer that a JavaScript number
  holds exactly (at most \<open>Number.MAX_SAFE_INTEGER = 2 ^ 53 - 1\<close>); an absent row passes.\<close>

definition exact_nonzero_row :: "int option \<Rightarrow> bool" where
  "exact_nonzero_row x = (case x of None \<Rightarrow> True | Some n \<Rightarrow> n \<noteq> 0 \<and> n \<le> 9007199254740991)"

text \<open>What every successful \<open>parse\<close> establishes: a sheet name that is set is not empty,
  a column that is set lies between 1 and 18278, a row that is set is not negative, and
  either the range has a sheet name and no bound at all, or it has a first bound
  (\<open>left\<close> or \<open>top\<close>) and a second bound (\<open>right\<close> or \<open>bottom\<close>).\<close>

definition col_ok :: "int option \<Rightarrow> bool" where
  "col_ok x = (case x of None \<Rightarrow> True | Some n \<Rightarrow> 1 \<le> n \<and> n \<le> 18278)"

definition row_nonneg :: "int option \<Rightarrow> bool" where
  "row_nonneg x = (case x of None \<Rightarrow> True | Some n \<Rightarrow> 0 \<le> n)"

definition parsed_ok :: "A1Notation \<Rightarrow> bool" where
  "parsed_ok r =
     ((case sheetName r of None \<Rightarrow> True | Some q \<Rightarrow> q \<noteq> [])
      \<and> col_ok (left r) \<and> col_ok (right r) \<and> row_nonneg (top r) \<and> row_nonneg (bottom r)
      \<and> (if left r = None \<and> top r = None
           then right r = None \<and> bottom r = None \<and> sheetName r \<noteq> None
           else right r \<noteq> None \<or> bottom r \<noteq> None))"

section \<open>The column codec is a bijection on what it produces\<close>

lemma toBase26_loop_pos:
  "n > 0 \<Longrightarrow>
   toBase26_loop n s = toBase26_loop ((n - 1) div 26) (char_of (charCodeA + (n - 1) mod 26) # s)"
  by (subst toBase26_loop.simps) simp

lemma toBase26_loop_nonpos: "n \<le> 0 \<Longrightarrow> toBase26_loop n s = s"
  by (subst toBase26_loop.simps) simp

lemma toBase26_loop_app: "toBase26_loop n s = toBase26_loop n [] @ s"
proof (induction "nat n" arbitrary: n s rule: less_induct)
  case less
  show ?case
  proof (cases "n > 0")
    case True
    let ?m = "(n - 1) div 26"
    let ?c = "char_of (charCodeA + (n - 1) mod 26)"
    have m: "nat ?m < nat n" using True by simp
    have a: "toBase26_loop n s = toBase26_loop ?m (?c # s)"
      using True by (rule toBase26_loop_pos)
    have b: "\<dots> = toBase26_loop ?m [] @ (?c # s)"
      using less[OF m] by blast
    have c: "toBase26_loop n [] = toBase26_loop ?m [?c]"
      using True by (rule toBase26_loop_pos)
    have d: "\<dots> = toBase26_loop ?m [] @ [?c]"
      using less[OF m] by blast
    show ?thesis unfolding a b c d by simp
  next
    case False
    then show ?thesis by (simp add: toBase26_loop_nonpos)
  qed
qed

lemma toBase26_step:
  "n > 0 \<Longrightarrow> toBase26 n = toBase26 ((n - 1) div 26) @ [char_of (charCodeA + (n - 1) mod 26)]"
  unfolding toBase26_def
  using toBase26_loop_app[of "(n - 1) div 26" "[char_of (charCodeA + (n - 1) mod 26)]"]
  by (simp add: toBase26_loop_pos)

lemma toBase26_nonpos: "n \<le> 0 \<Longrightarrow> toBase26 n = []"
  by (simp add: toBase26_def toBase26_loop_nonpos)

lemma fromBase26_loop_app:
  "fromBase26_loop acc (xs @ ys) =
     (case fromBase26_loop acc xs of Inl e \<Rightarrow> Inl e | Inr m \<Rightarrow> fromBase26_loop m ys)"
  by (induction xs arbitrary: acc) (auto simp: Let_def)

lemma of_char_upper:
  "0 \<le> k \<Longrightarrow> k < 26 \<Longrightarrow> (of_char (char_of (charCodeA + k :: int)) :: int) = charCodeA + k"
  by (simp add: charCodeA_def of_char_of)

lemma is_upper_char_of: "0 \<le> k \<Longrightarrow> k < 26 \<Longrightarrow> is_upper (char_of (charCodeA + k))"
  unfolding is_upper_def by (simp add: of_char_upper) (simp add: charCodeA_def charCodeZ_def)

lemma fromBase26_loop_upper_single:
  "0 \<le> k \<Longrightarrow> k < 26 \<Longrightarrow> fromBase26_loop m [char_of (charCodeA + k)] = Inr (m * 26 + k + 1)"
  by (simp add: Let_def of_char_of charCodeA_def charCodeZ_def)

lemma fromBase26_toBase26: "0 \<le> n \<Longrightarrow> fromBase26 (toBase26 n) = Inr n"
proof (induction "nat n" arbitrary: n rule: less_induct)
  case less
  show ?case
  proof (cases "n > 0")
    case True
    let ?m = "(n - 1) div 26"
    let ?k = "(n - 1) mod 26"
    have m: "nat ?m < nat n" "0 \<le> ?m" using True by simp_all
    have k: "0 \<le> ?k" "?k < 26" by simp_all
    have ih: "fromBase26_loop 0 (toBase26 ?m) = Inr ?m"
      using less.hyps[OF m] by (simp add: fromBase26_def)
    have "fromBase26 (toBase26 n) = fromBase26_loop ?m [char_of (charCodeA + ?k)]"
      unfolding fromBase26_def toBase26_step[OF True] fromBase26_loop_app ih by simp
    also have "\<dots> = Inr (?m * 26 + ?k + 1)"
      using k by (rule fromBase26_loop_upper_single)
    also have "?m * 26 + ?k + 1 = n" by simp
    finally show ?thesis .
  next
    case False
    with less.prems have "n = 0" by simp
    then show ?thesis by (simp add: toBase26_nonpos fromBase26_def)
  qed
qed

lemma toBase26_upper: "list_all is_upper (toBase26 n)"
proof (induction "nat n" arbitrary: n rule: less_induct)
  case less
  show ?case
  proof (cases "n > 0")
    case True
    let ?m = "(n - 1) div 26"
    let ?k = "(n - 1) mod 26"
    have m: "nat ?m < nat n" using True by simp
    have k: "0 \<le> ?k" "?k < 26" by simp_all
    have "is_upper (char_of (charCodeA + ?k))"
      using k by (rule is_upper_char_of)
    then show ?thesis using less[OF m] by (simp add: toBase26_step[OF True])
  next
    case False
    then show ?thesis by (simp add: toBase26_nonpos)
  qed
qed

text \<open>
  Claim C4. For every integer \<open>n\<close> from 1 to 18278, decoding the encoding of \<open>n\<close> returns
  \<open>n\<close>: \<open>fromBase26 (toBase26 n) = n\<close>, and \<open>toBase26 n\<close> consists of uppercase letters
  \<open>A\<close> to \<open>Z\<close> only.
\<close>

theorem column_codec_inverse:
  "1 \<le> n \<Longrightarrow> n \<le> 18278 \<Longrightarrow>
   fromBase26 (toBase26 n) = Inr n \<and> list_all is_upper (toBase26 n)"
  using fromBase26_toBase26[of n] toBase26_upper[of n] by simp

theorem column_codec_inverse_witness:
  "(1::int) \<le> 18278 \<and> fromBase26 (toBase26 18278) = Inr 18278
   \<and> list_all is_upper (toBase26 18278) \<and> toBase26 18278 = ''ZZZ''"
proof -
  have "toBase26 18278 = ''ZZZ''" by code_simp
  then show ?thesis using column_codec_inverse[of 18278] by simp
qed

section \<open>The constructor\<close>

text \<open>
  Claim C5. For every constructor call in which both \<open>right\<close> and \<open>bottom\<close> are omitted,
  the constructed range has \<open>right\<close> equal to \<open>left\<close> and \<open>bottom\<close> equal to \<open>top\<close>; when
  at least one of \<open>right\<close> and \<open>bottom\<close> is supplied, nothing is defaulted and the one
  that was omitted stays absent. The other fields are the arguments in both cases.
\<close>

theorem constructor_defaulting:
  "(r = None \<and> b = None \<longrightarrow>
      A1Notation_new sn l t r b
        = \<lparr>sheetName = sn, left = l, top = t, right = l, bottom = t\<rparr>)
   \<and> (r \<noteq> None \<or> b \<noteq> None \<longrightarrow>
      A1Notation_new sn l t r b
        = \<lparr>sheetName = sn, left = l, top = t, right = r, bottom = b\<rparr>)"
  by (simp add: A1Notation_new_def)

theorem constructor_defaulting_witness:
  "A1Notation_new (Some ''Sheet1'') (Some 1) (Some 2) None None
     = \<lparr>sheetName = Some ''Sheet1'', left = Some 1, top = Some 2, right = Some 1, bottom = Some 2\<rparr>
   \<and> A1Notation_new (Some ''Sheet1'') (Some 2) (Some 2) (Some 3) None
     = \<lparr>sheetName = Some ''Sheet1'', left = Some 2, top = Some 2, right = Some 3, bottom = None\<rparr>
   \<and> A1Notation_new (Some ''Sheet1'') (Some 2) (Some 2) None (Some 3)
     = \<lparr>sheetName = Some ''Sheet1'', left = Some 2, top = Some 2, right = None, bottom = Some 3\<rparr>"
  using constructor_defaulting[of None None "Some ''Sheet1''" "Some 1" "Some 2"]
        constructor_defaulting[of "Some 3" None "Some ''Sheet1''" "Some 2" "Some 2"]
        constructor_defaulting[of None "Some 3" "Some ''Sheet1''" "Some 2" "Some 2"]
  by simp

text \<open>
  Claim C2. The constructor is to raise a construction error on an empty sheet name, on
  a bound equal to 0, on a \<open>right\<close> without a \<open>left\<close> and on a \<open>bottom\<close> without a \<open>top\<close>.
  The constructor has no check and no \<open>throw\<close>: on each of these arguments it returns a
  range holding them.
\<close>

theorem constructor_accepts_invalid_arguments:
  "A1Notation_new (Some []) None None None None
     = \<lparr>sheetName = Some [], left = None, top = None, right = None, bottom = None\<rparr>
   \<and> A1Notation_new None (Some 0) None None None
     = \<lparr>sheetName = None, left = Some 0, top = None, right = Some 0, bottom = None\<rparr>
   \<and> A1Notation_new None (Some 1) (Some 1) (Some 1) (Some 0)
     = \<lparr>sheetName = None, left = Some 1, top = Some 1, right = Some 1, bottom = Some 0\<rparr>
   \<and> A1Notation_new None None None (Some 1) None
     = \<lparr>sheetName = None, left = None, top = None, right = Some 1, bottom = None\<rparr>
   \<and> A1Notation_new None None None None (Some 1)
     = \<lparr>sheetName = None, left = None, top = None, right = None, bottom = Some 1\<rparr>"
  by (simp add: A1Notation_new_def)

text \<open>
  Claim C6. Constructing a range with sheet name \<open>Sheet1\<close>, \<open>left = 3\<close> and \<open>top = 2\<close>,
  \<open>right\<close> and \<open>bottom\<close> omitted, and formatting it yields exactly \<open>Sheet1!C2\<close>.
\<close>

theorem format_sheet1_C2:
  "toString (A1Notation_new (Some ''Sheet1'') (Some 3) (Some 2) None None) = ''Sheet1!C2''"
  by code_simp

section \<open>Parsing concrete inputs\<close>

text \<open>
  Claim C7. \<open>parse\<close> raises a parse error, and produces no range, on each of the inputs
  \<open>""\<close>, \<open>"Sheet1!"\<close>, \<open>"A1:B2:C3"\<close>, \<open>"!A1:B2"\<close>, \<open>"''!A1:B2"\<close> and \<open>"Sheet1?"\<close>.
  The theorem names the error raised on each.
\<close>

theorem parse_rejects_invalid_inputs:
  "parse '''' = Some (Inl InvalidCellName)
   \<and> parse ''Sheet1!'' = Some (Inl InvalidCellName)
   \<and> parse ''A1:B2:C3'' = Some (Inl (ExpectedEOF '':''))
   \<and> parse ''!A1:B2'' = Some (Inl (UnexpectedCharacter ''!''))
   \<and> parse (quote # quote # ''!A1:B2'') = Some (Inl InvalidSheetName)
   \<and> parse ''Sheet1?'' = Some (Inl (ExpectedBangOrColon ''?''))"
  by code_simp

text \<open>
  Claim C9. The two revisions of \<open>A1Notation.parse\<close> are to agree on every input. On a
  quoted sheet name followed by a single cell, \<open>'Sheet1'!A1\<close>, the earlier revision
  returns no second cell and leaves \<open>right\<close> and \<open>bottom\<close> unset, where the current one
  (and the earlier one itself on the unquoted \<open>Sheet1!A1\<close>) sets them to the cell.
\<close>

theorem parse_old_quoted_single_cell:
  "parse_old (quote # ''Sheet1'' @ quote # ''!A1'')
     = Some (Inr \<lparr>sheetName = Some ''Sheet1'', left = Some 1, top = Some 1,
                  right = None, bottom = None\<rparr>)
   \<and> parse (quote # ''Sheet1'' @ quote # ''!A1'')
     = Some (Inr \<lparr>sheetName = Some ''Sheet1'', left = Some 1, top = Some 1,
                  right = Some 1, bottom = Some 1\<rparr>)
   \<and> parse_old ''Sheet1!A1''
     = Some (Inr \<lparr>sheetName = Some ''Sheet1'', left = Some 1, top = Some 1,
                  right = Some 1, bottom = Some 1\<rparr>)"
  by code_simp

section \<open>The scanner in terms of the unread input\<close>

lemma peek_rest: "peek p = (case rest p of [] \<Rightarrow> EOF | c # cs \<Rightarrow> [c])"
proof (cases "index p < length (buf p)")
  case True
  then have "rest p = buf p ! index p # drop (Suc (index p)) (buf p)"
    using Cons_nth_drop_Suc[of "index p" "buf p"] by (simp add: rest_def)
  with True show ?thesis by (simp add: peek_def)
next
  case False
  then show ?thesis by (simp add: peek_def rest_def)
qed

lemma rest_advance: "rest (advance n p) = drop n (rest p)"
  by (simp add: rest_def advance_def add.commute)

lemma next_ch_advance: "next_ch p = advance 1 p"
  by (simp add: next_ch_def advance_def)

lemma advance_advance: "advance m (advance n p) = advance (n + m) p"
  by (simp add: advance_def add.assoc)

lemma advance_0: "advance 0 p = p"
  by (simp add: advance_def)

lemma rest_next_ch: "rest (next_ch p) = tl (rest p)"
  by (simp add: next_ch_advance rest_advance drop_Suc)

lemma rest_init: "rest \<lparr>buf = s, index = 0\<rparr> = s"
  by (simp add: rest_def)

lemma peek_EOF_iff: "peek p = EOF \<longleftrightarrow> rest p = []"
  by (simp add: peek_rest EOF_def split: list.splits)

lemma peek_eq_single: "peek p = [c] \<longleftrightarrow> (\<exists>cs. rest p = c # cs)"
  by (auto simp add: peek_rest EOF_def split: list.splits)

lemma peek_Cons: "rest p = c # cs \<Longrightarrow> peek p = [c]"
  by (simp add: peek_rest)

lemma parseName_loop_rest:
  "parseName_loop p name =
     (name @ takeWhile is_alnum (rest p), advance (length (takeWhile is_alnum (rest p))) p)"
proof (induction p name rule: parseName_loop.induct)
  case (1 p name)
  show ?case
  proof (cases "rest p")
    case Nil
    then have "peek p = EOF" by (simp add: peek_EOF_iff)
    then have "parseName_loop p name = (name, p)" by (subst parseName_loop.simps) simp
    then show ?thesis using Nil by (simp add: advance_0)
  next
    case (Cons c cs)
    then have pk: "peek p = [c]" "peek p \<noteq> EOF" by (simp_all add: peek_rest EOF_def)
    show ?thesis
    proof (cases "is_alnum c")
      case True
      then have go: "\<not> (peek p = EOF \<or> \<not> test_alnum (peek p))"
        using pk by (simp add: test_alnum_def)
      then have "parseName_loop p name = parseName_loop (next_ch p) (name @ peek p)"
        by (subst parseName_loop.simps) simp
      also have "\<dots> = ((name @ peek p) @ takeWhile is_alnum (rest (next_ch p)),
            advance (length (takeWhile is_alnum (rest (next_ch p)))) (next_ch p))"
        using 1 go by blast
      finally show ?thesis using Cons True pk
        by (simp add: rest_advance next_ch_advance advance_advance)
    next
      case False
      then have "peek p = EOF \<or> \<not> test_alnum (peek p)" using pk by (simp add: test_alnum_def)
      then have "parseName_loop p name = (name, p)" by (subst parseName_loop.simps) simp
      then show ?thesis using Cons False by (simp add: advance_0)
    qed
  qed
qed

lemma parseName_rest:
  "parseName p =
     (if takeWhile is_alnum (rest p) = [] then Inl InvalidCellName
      else Inr (takeWhile is_alnum (rest p), advance (length (takeWhile is_alnum (rest p))) p))"
  by (simp add: parseName_def parseName_loop_rest)

lemma parseName_at:
  assumes "rest p = n @ t" and "n \<noteq> []" and "list_all is_alnum n"
    and "t = [] \<or> \<not> is_alnum (hd t)"
  shows "parseName p = Inr (n, advance (length n) p)" and "rest (advance (length n) p) = t"
proof -
  have "takeWhile is_alnum (n @ t) = n"
    using assms(3,4) by (cases t) (auto simp: list_all_iff takeWhile_append2 takeWhile_eq_all_conv[THEN iffD2])
  then show "parseName p = Inr (n, advance (length n) p)"
    using assms(1,2) by (simp add: parseName_rest)
  show "rest (advance (length n) p) = t"
    using assms(1) by (simp add: rest_advance)
qed

lemma parseName_Inr:
  "parseName p = Inr (n, p') \<Longrightarrow> n \<noteq> [] \<and> list_all is_alnum n \<and> n = takeWhile is_alnum (rest p)"
  by (auto simp: parseName_rest list_all_iff split: if_splits dest: set_takeWhileD)

section \<open>The quoted sheet name\<close>

lemma parseQuotedName_loop_diverges:
  "list_all (\<lambda>c. c \<noteq> quote) (rest p) \<Longrightarrow> parseQuotedName_loop p name = None"
proof (rule ccontr)
  assume a: "list_all (\<lambda>c. c \<noteq> quote) (rest p)" and "parseQuotedName_loop p name \<noteq> None"
  then obtain r where "parseQuotedName_loop p name = Some r" by auto
  then have "\<not> list_all (\<lambda>c. c \<noteq> quote) (rest p)"
  proof (induct rule: parseQuotedName_loop.raw_induct[rotated 1, consumes 1, case_names 1])
    case (1 f p name r)
    show ?case
    proof (cases "peek p = [quote]")
      case True
      then show ?thesis by (auto simp: peek_eq_single)
    next
      case False
      with 1 have "\<not> list_all (\<lambda>c. c \<noteq> quote) (rest (next_ch p))" by auto
      then show ?thesis by (cases "rest p") (auto simp: rest_next_ch)
    qed
  qed
  with a show False by simp
qed

lemma parseQuotedName_loop_closes:
  assumes "rest p = replace_quotes q @ quote # r" and "r = [] \<or> hd r \<noteq> quote"
  shows "parseQuotedName_loop p name = Some (name @ q, advance (length (replace_quotes q) + 1) p)"
  using assms
proof (induction q arbitrary: p name)
  case Nil
  then have r: "rest p = quote # r" by (simp add: replace_quotes_def)
  then have pk: "peek p = [quote]" by (simp add: peek_rest)
  have "rest (next_ch p) = r" using r by (simp add: rest_next_ch)
  then have "peek (next_ch p) \<noteq> [quote]" using Nil(2) by (cases r) (auto simp: peek_rest EOF_def)
  then show ?case using pk
    by (subst parseQuotedName_loop.simps) (simp add: replace_quotes_def next_ch_advance)
next
  case (Cons c q)
  show ?case
  proof (cases "c = quote")
    case True
    then have r: "rest p = quote # quote # replace_quotes q @ quote # r"
      using Cons.prems by (simp add: replace_quotes_def)
    then have pk: "peek p = [quote]" by (simp add: peek_rest)
    have r1: "rest (next_ch p) = quote # replace_quotes q @ quote # r"
      using r by (simp add: rest_next_ch)
    then have pk1: "peek (next_ch p) = [quote]" by (simp add: peek_rest)
    have r2: "rest (next_ch (next_ch p)) = replace_quotes q @ quote # r"
      using r1 by (simp add: rest_next_ch)
    have "parseQuotedName_loop p name = parseQuotedName_loop (next_ch (next_ch p)) (name @ [quote])"
      using pk pk1 by (subst parseQuotedName_loop.simps) simp
    also have "\<dots> = Some ((name @ [quote]) @ q,
        advance (length (replace_quotes q) + 1) (next_ch (next_ch p)))"
      using Cons.IH[OF r2 Cons.prems(2)] .
    finally show ?thesis using True
      by (simp add: next_ch_advance advance_advance replace_quotes_def)
  next
    case False
    then have r: "rest p = c # replace_quotes q @ quote # r"
      using Cons.prems by (simp add: replace_quotes_def)
    then have pk: "peek p = [c]" by (simp add: peek_rest)
    have r1: "rest (next_ch p) = replace_quotes q @ quote # r" using r by (simp add: rest_next_ch)
    have "parseQuotedName_loop p name = parseQuotedName_loop (next_ch p) (name @ [c])"
      using pk False by (subst parseQuotedName_loop.simps) simp
    also have "\<dots> = Some ((name @ [c]) @ q, advance (length (replace_quotes q) + 1) (next_ch p))"
      using Cons.IH[OF r1 Cons.prems(2)] .
    finally show ?thesis using False
      by (simp add: next_ch_advance advance_advance replace_quotes_def)
  qed
qed

lemma parseQuotedName_loop_result:
  assumes "parseQuotedName_loop p name = Some (name', p')"
  shows "\<exists>q r. name' = name @ q \<and> rest p = replace_quotes q @ quote # r
           \<and> (r = [] \<or> hd r \<noteq> quote)"
  using assms
proof (induct p name "(name', p')"
    rule: parseQuotedName_loop.raw_induct[rotated 1, consumes 1, case_names 1])
  case (1 f p name)
  show ?case
  proof (cases "peek p = [quote]")
    case True
    then obtain cs where cs: "rest p = quote # cs" by (auto simp: peek_eq_single)
    then have r1: "rest (next_ch p) = cs" by (simp add: rest_next_ch)
    show ?thesis
    proof (cases "peek (next_ch p) = [quote]")
      case False
      with 1 True have "name' = name" by simp
      moreover have "cs = [] \<or> hd cs \<noteq> quote"
        using False r1 by (cases cs) (auto simp: peek_rest)
      ultimately show ?thesis using cs
        by (intro exI[of _ "[]"] exI[of _ cs]) (simp add: replace_quotes_def)
    next
      case q2: True
      then obtain cs' where cs': "cs = quote # cs'" using r1 by (auto simp: peek_eq_single)
      then have r2: "rest (next_ch (next_ch p)) = cs'" using r1 by (simp add: rest_next_ch)
      from 1 True q2 have "f (next_ch (next_ch p)) (name @ [quote]) = Some (name', p')" by simp
      from 1(1)[OF this] obtain q r where
        "name' = (name @ [quote]) @ q"
        "rest (next_ch (next_ch p)) = replace_quotes q @ quote # r"
        "r = [] \<or> hd r \<noteq> quote"
        by blast
      then show ?thesis using cs cs' r2
        by (intro exI[of _ "quote # q"] exI[of _ r]) (simp add: replace_quotes_def)
    qed
  next
    case False
    with 1 have f: "f (next_ch p) (name @ peek p) = Some (name', p')" by simp
    from 1(1)[OF this] obtain q r where qr:
      "name' = (name @ peek p) @ q"
      "rest (next_ch p) = replace_quotes q @ quote # r"
      "r = [] \<or> hd r \<noteq> quote"
      by blast
    then obtain c cs where ccs: "rest p = c # cs" by (cases "rest p") (auto simp: rest_next_ch)
    then have "peek p = [c]" "c \<noteq> quote" using False by (auto simp: peek_rest)
    then show ?thesis using qr ccs
      by (intro exI[of _ "c # q"] exI[of _ r]) (simp add: replace_quotes_def rest_next_ch)
  qed
qed

lemma parseQuotedName_closes:
  assumes "rest p = quote # replace_quotes q @ quote # r" and "r = [] \<or> hd r \<noteq> quote"
    and "q \<noteq> []"
  shows "parseQuotedName p = Some (Inr (q, advance (length (replace_quotes q) + 2) p))"
proof -
  have pk: "peek p = [quote]" using assms(1) by (simp add: peek_rest)
  have "rest (next_ch p) = replace_quotes q @ quote # r"
    using assms(1) by (simp add: rest_next_ch)
  from parseQuotedName_loop_closes[OF this assms(2), of "[]"] show ?thesis
    using pk assms(3) by (simp add: parseQuotedName_def next_ch_advance advance_advance)
qed

lemma parseQuotedName_result:
  assumes "parseQuotedName p = Some (Inr (q, p'))"
  shows "q \<noteq> [] \<and> (\<exists>r. rest p = quote # replace_quotes q @ quote # r)"
proof -
  from assms have pk: "peek p = [quote]"
    by (auto simp: parseQuotedName_def split: if_splits)
  then obtain cs where cs: "rest p = quote # cs" by (auto simp: peek_eq_single)
  from assms pk have loop: "parseQuotedName_loop (next_ch p) [] = Some (q, p')" and "q \<noteq> []"
    by (auto simp: parseQuotedName_def split: option.splits if_splits)
  from parseQuotedName_loop_result[OF loop] obtain r where
    "rest (next_ch p) = replace_quotes q @ quote # r" by auto
  then show ?thesis using cs \<open>q \<noteq> []\<close> by (auto simp: rest_next_ch)
qed

text \<open>
  Claim C3. An input that opens a quoted sheet name and reaches the end of the input
  without a closing quote is to raise \<open>invalid sheet name\<close>. The search for the closing
  quote has no test for the end of the input: it appends the end marker to the name and
  advances, for ever. On \<open>'Sheet1\<close> (no closing quote) \<open>parse\<close> never returns and never
  raises; the other half of the claim holds: on an empty quoted name (\<open>''\<close>) it raises
  \<open>invalid sheet name\<close>.
\<close>

theorem unterminated_quote_never_returns:
  "parse (quote # ''Sheet1'') = None
   \<and> parse [quote] = None
   \<and> parse [quote, quote] = Some (Inl InvalidSheetName)"
proof -
  have "parseQuotedName_loop (next_ch \<lparr>buf = quote # ''Sheet1'', index = 0\<rparr>) [] = None"
    by (rule parseQuotedName_loop_diverges) (simp add: rest_next_ch rest_init quote_def)
  then have a: "parse (quote # ''Sheet1'') = None"
    by (simp add: parse_def Parser_parse_def parseSheetNameAndCell_def parseQuotedName_def peek_def)
  have "parseQuotedName_loop (next_ch \<lparr>buf = [quote], index = 0\<rparr>) [] = None"
    by (rule parseQuotedName_loop_diverges) (simp add: rest_next_ch rest_init)
  then have b: "parse [quote] = None"
    by (simp add: parse_def Parser_parse_def parseSheetNameAndCell_def parseQuotedName_def peek_def)
  have c: "parse [quote, quote] = Some (Inl InvalidSheetName)"
    by code_simp
  from a b c show ?thesis by simp
qed

section \<open>Decimal text\<close>

lemma of_char_digit: "k < 10 \<Longrightarrow> (of_char (char_of (48 + k :: nat)) :: int) = 48 + int k"
proof -
  assume k: "k < 10"
  have "(of_char (char_of (48 + k)) :: int) = int (of_char (char_of (48 + k)))"
    by (simp only: of_nat_of_char)
  also have "\<dots> = 48 + int k" using k by simp
  finally show ?thesis .
qed

lemma is_digit_char_of: "k < 10 \<Longrightarrow> is_digit (char_of (48 + k :: nat))"
  by (simp add: is_digit_def of_char_digit)

lemma digits_ne: "digits n \<noteq> []"
  by (subst digits.simps) simp

lemma digits_all_digit: "list_all is_digit (digits n)"
proof (induction n rule: digits.induct)
  case (1 n)
  show ?case
  proof (cases "n < 10")
    case True
    then show ?thesis by (subst digits.simps) (simp add: is_digit_char_of)
  next
    case False
    then have "list_all is_digit (digits (n div 10))" using 1 by simp
    moreover have "is_digit (char_of (48 + n mod 10))" by (rule is_digit_char_of) simp
    ultimately show ?thesis using False by (subst digits.simps) simp
  qed
qed

lemma parseInt_snoc: "parseInt (m @ [c]) = parseInt m * 10 + (of_char c - 48)"
  by (simp add: parseInt_def)

lemma parseInt_digits: "parseInt (digits n) = int n"
proof (induction n rule: digits.induct)
  case (1 n)
  show ?case
  proof (cases "n < 10")
    case True
    then show ?thesis by (subst digits.simps) (simp add: parseInt_def of_char_digit)
  next
    case False
    then have ih: "parseInt (digits (n div 10)) = int (n div 10)" using 1 by simp
    have "parseInt (digits n) = parseInt (digits (n div 10) @ [char_of (48 + n mod 10)])"
      using False by (subst digits.simps) simp
    also have "\<dots> = int (n div 10) * 10 + int (n mod 10)"
      by (simp add: parseInt_snoc ih of_char_digit)
    also have "\<dots> = int n" by (simp add: zdiv_int zmod_int)
    finally show ?thesis .
  qed
qed

lemma parseInt_foldl_nonneg:
  "list_all is_digit m \<Longrightarrow> 0 \<le> a \<Longrightarrow> 0 \<le> foldl (\<lambda>n c. n * 10 + (of_char c - 48)) (a::int) m"
  by (induction m arbitrary: a) (auto simp: is_digit_def)

lemma parseInt_nonneg: "list_all is_digit m \<Longrightarrow> 0 \<le> parseInt m"
  unfolding parseInt_def by (rule parseInt_foldl_nonneg) simp_all

lemma num_toString_pos: "0 < n \<Longrightarrow> num_toString n = digits (nat n)"
  by (simp add: num_toString_def)

section \<open>Letters, digits and the cell pattern\<close>

lemma digit_not_letter: "is_digit c \<Longrightarrow> \<not> is_letter c"
  by (auto simp: is_digit_def is_letter_def is_lower_def is_upper_def
      charCodeA_def charCodeZ_def charCode_a_def charCode_z_def)

lemma upper_is_letter: "is_upper c \<Longrightarrow> is_letter c"
  by (simp add: is_letter_def)

lemma letter_is_alnum: "is_letter c \<Longrightarrow> is_alnum c"
  by (simp add: is_alnum_def)

lemma digit_is_alnum: "is_digit c \<Longrightarrow> is_alnum c"
  by (simp add: is_alnum_def)

lemma quote_not_alnum: "\<not> is_alnum quote"
  by (simp add: is_alnum_def is_letter_def is_digit_def is_lower_def is_upper_def quote_def
      charCodeA_def charCodeZ_def charCode_a_def charCode_z_def)

lemma bang_not_alnum: "\<not> is_alnum (CHR ''!'')"
  by (simp add: is_alnum_def is_letter_def is_digit_def is_lower_def is_upper_def
      charCodeA_def charCodeZ_def charCode_a_def charCode_z_def)

lemma colon_not_alnum: "\<not> is_alnum (CHR '':'')"
  by (simp add: is_alnum_def is_letter_def is_digit_def is_lower_def is_upper_def
      charCodeA_def charCodeZ_def charCode_a_def charCode_z_def)

lemma cell_split:
  assumes "list_all is_letter l" and "length l \<le> 3" and "list_all is_digit d"
  shows "takeWhile is_letter (take 3 (l @ d)) = l"
proof -
  have "take 3 (l @ d) = l @ take (3 - length l) d" using assms(2) by simp
  moreover have "takeWhile is_letter (take (3 - length l) d) = []"
    using assms(3) by (cases d; cases "3 - length l") (auto simp: digit_not_letter)
  ultimately show ?thesis
    using assms(1) by (simp add: takeWhile_append2 list_all_iff)
qed

lemma match_cell_at:
  "list_all is_letter l \<Longrightarrow> length l \<le> 3 \<Longrightarrow> list_all is_digit d \<Longrightarrow>
   match_cell (l @ d) = Some (l, d)"
  by (simp only: match_cell_def cell_split Let_def) simp

lemma reCell_test_at:
  "list_all is_letter l \<Longrightarrow> length l \<le> 3 \<Longrightarrow> list_all is_digit d \<Longrightarrow>
   reCell_test (l @ d) = (d \<noteq> [])"
  by (simp only: reCell_test_def cell_split Let_def) simp

lemma match_cell_Some:
  assumes "match_cell s = Some (m1, m2)"
  shows "s = m1 @ m2 \<and> list_all is_letter m1 \<and> length m1 \<le> 3 \<and> list_all is_digit m2"
proof -
  from assms have m1: "m1 = takeWhile is_letter (take 3 s)" and m2: "m2 = drop (length m1) s"
    and d: "list_all is_digit m2"
    by (auto simp: match_cell_def Let_def split: if_splits)
  have "list_all is_letter m1" unfolding m1 by (auto simp: list_all_iff dest: set_takeWhileD)
  moreover have len: "length m1 \<le> 3"
    unfolding m1 using length_takeWhile_le[of is_letter "take 3 s"] by simp
  moreover have "take (length m1) s = m1"
  proof -
    have "take (length m1) (take 3 s) = m1"
      unfolding m1 by (metis takeWhile_eq_take)
    then show ?thesis using len by (simp add: min_def)
  qed
  then have "s = m1 @ m2" unfolding m2 by (metis append_take_drop_id)
  ultimately show ?thesis using d by simp
qed

section \<open>Column numbers of at most three letters\<close>

lemma fromBase26_loop_letter:
  assumes "is_letter c"
  shows "\<exists>v. 1 \<le> v \<and> v \<le> 26 \<and> (\<forall>n s. fromBase26_loop n (c # s) = fromBase26_loop (n * 26 + v) s)"
proof (cases "is_upper c")
  case True
  then show ?thesis
    by (intro exI[of _ "of_char c - charCodeA + 1"])
       (auto simp: is_upper_def Let_def charCodeA_def charCodeZ_def algebra_simps)
next
  case False
  with assms have "is_lower c" by (simp add: is_letter_def)
  with False show ?thesis
    by (intro exI[of _ "of_char c - charCode_a + 1"])
       (auto simp: is_upper_def is_lower_def Let_def charCodeA_def charCodeZ_def
          charCode_a_def charCode_z_def algebra_simps)
qed

lemma fromBase26_bounds:
  assumes "list_all is_letter l" and "l \<noteq> []" and "length l \<le> 3"
  shows "\<exists>v. fromBase26 l = Inr v \<and> 1 \<le> v \<and> v \<le> 18278"
proof -
  from assms(2) obtain a l1 where l: "l = a # l1" by (cases l) auto
  from assms(1) l obtain va where va: "1 \<le> va" "va \<le> 26"
    "\<And>n s. fromBase26_loop n (a # s) = fromBase26_loop (n * 26 + va) s"
    using fromBase26_loop_letter[of a] by auto
  show ?thesis
  proof (cases l1)
    case Nil
    then show ?thesis using l va by (simp add: fromBase26_def)
  next
    case l1: (Cons b l2)
    from assms(1) l l1 obtain vb where vb: "1 \<le> vb" "vb \<le> 26"
      "\<And>n s. fromBase26_loop n (b # s) = fromBase26_loop (n * 26 + vb) s"
      using fromBase26_loop_letter[of b] by auto
    show ?thesis
    proof (cases l2)
      case Nil
      then show ?thesis using l l1 va vb by (simp add: fromBase26_def)
    next
      case l2: (Cons c l3)
      from assms(3) l l1 l2 have l3: "l3 = []" by simp
      from assms(1) l l1 l2 obtain vc where vc: "1 \<le> vc" "vc \<le> 26"
        "\<And>n s. fromBase26_loop n (c # s) = fromBase26_loop (n * 26 + vc) s"
        using fromBase26_loop_letter[of c] by auto
      show ?thesis using l l1 l2 l3 va vb vc by (simp add: fromBase26_def)
    qed
  qed
qed

lemma toBase26_length:
  assumes "1 \<le> n" and "n \<le> 18278"
  shows "toBase26 n \<noteq> [] \<and> length (toBase26 n) \<le> 3"
proof -
  let ?a = "(n - 1) div 26"
  have s1: "toBase26 n = toBase26 ?a @ [char_of (charCodeA + (n - 1) mod 26)]"
    using assms(1) by (simp add: toBase26_step)
  have a: "?a \<le> 702" using assms(2) by simp
  show ?thesis
  proof (cases "?a > 0")
    case False
    then show ?thesis using s1 by (simp add: toBase26_nonpos)
  next
    case True
    let ?b = "(?a - 1) div 26"
    have s2: "toBase26 ?a = toBase26 ?b @ [char_of (charCodeA + (?a - 1) mod 26)]"
      using True by (simp add: toBase26_step)
    have b: "?b \<le> 26" using a by simp
    show ?thesis
    proof (cases "?b > 0")
      case False
      then show ?thesis using s1 s2 by (simp add: toBase26_nonpos)
    next
      case b0: True
      let ?c = "(?b - 1) div 26"
      have s3: "toBase26 ?b = toBase26 ?c @ [char_of (charCodeA + (?b - 1) mod 26)]"
        using b0 by (simp add: toBase26_step)
      have "?c \<le> 0" using b by simp
      then show ?thesis using s1 s2 s3 by (simp add: toBase26_nonpos)
    qed
  qed
qed

section \<open>The cell decoder\<close>

lemma parseCell_Inr:
  assumes "parseCell s = Inr c" and "s \<noteq> []"
  shows "col_ok (col c) \<and> row_nonneg (row c) \<and> (col c \<noteq> None \<or> row c \<noteq> None)"
proof -
  from assms(1) obtain m1 m2 where m: "match_cell s = Some (m1, m2)"
    by (auto simp: parseCell_def split: option.splits)
  from match_cell_Some[OF m] have s: "s = m1 @ m2" and l: "list_all is_letter m1"
    and len: "length m1 \<le> 3" and d: "list_all is_digit m2" by simp_all
  have rw: "row c = (if m2 \<noteq> [] then Some (parseInt m2) else None)"
    using assms(1) m by (auto simp: parseCell_def split: sum.splits if_splits)
  show ?thesis
  proof (cases "m1 = []")
    case True
    then have "col c = None" using assms(1) m by (auto simp: parseCell_def)
    moreover have "m2 \<noteq> []" using True s assms(2) by simp
    ultimately show ?thesis using rw parseInt_nonneg[OF d] by (simp add: col_ok_def row_nonneg_def)
  next
    case False
    from fromBase26_bounds[OF l False len] obtain v where
      v: "fromBase26 m1 = Inr v" "1 \<le> v" "v \<le> 18278" by auto
    then have "col c = Some v" using assms(1) m False by (auto simp: parseCell_def)
    then show ?thesis using v rw parseInt_nonneg[OF d] by (simp add: col_ok_def row_nonneg_def)
  qed
qed

lemma col_text_props:
  assumes "col_ok cl"
  shows "list_all is_letter (col_text cl)" and "length (col_text cl) \<le> 3"
    and "col_text cl = [] \<longleftrightarrow> cl = None"
    and "col_text cl \<noteq> [] \<Longrightarrow> map_sum id Some (fromBase26 (col_text cl)) = Inr cl"
proof -
  show "list_all is_letter (col_text cl)"
    using toBase26_upper by (auto simp: col_text_def list_all_iff upper_is_letter split: option.splits)
  show "length (col_text cl) \<le> 3"
    using assms toBase26_length by (auto simp: col_text_def col_ok_def split: option.splits)
  show "col_text cl = [] \<longleftrightarrow> cl = None"
    using assms toBase26_length by (auto simp: col_text_def col_ok_def split: option.splits)
  show "col_text cl \<noteq> [] \<Longrightarrow> map_sum id Some (fromBase26 (col_text cl)) = Inr cl"
    using assms by (auto simp: col_text_def col_ok_def fromBase26_toBase26 split: option.splits)
qed

lemma row_text_props:
  assumes "row_nonneg rw" and "rw \<noteq> Some 0"
  shows "list_all is_digit (row_text rw)" and "row_text rw = [] \<longleftrightarrow> rw = None"
    and "row_text rw \<noteq> [] \<Longrightarrow> Some (parseInt (row_text rw)) = rw"
proof -
  show "list_all is_digit (row_text rw)"
    using assms by (auto simp: row_text_def row_nonneg_def num_toString_pos digits_all_digit
        split: option.splits)
  show "row_text rw = [] \<longleftrightarrow> rw = None"
    using assms by (auto simp: row_text_def row_nonneg_def num_toString_pos digits_ne
        split: option.splits)
  show "row_text rw \<noteq> [] \<Longrightarrow> Some (parseInt (row_text rw)) = rw"
    using assms by (auto simp: row_text_def row_nonneg_def num_toString_pos parseInt_digits
        split: option.splits)
qed

lemma parseCell_text:
  assumes "col_ok cl" and "row_nonneg rw" and "rw \<noteq> Some 0"
  shows "parseCell (col_text cl @ row_text rw) = Inr \<lparr>col = cl, row = rw\<rparr>"
proof -
  note c = col_text_props[OF assms(1)]
  note r = row_text_props[OF assms(2,3)]
  have "match_cell (col_text cl @ row_text rw) = Some (col_text cl, row_text rw)"
    using c(1,2) r(1) by (rule match_cell_at)
  then show ?thesis using c(3,4) r(2,3) by (auto simp: parseCell_def)
qed

lemma cell_text_name:
  assumes "col_ok cl" and "row_nonneg rw" and "rw \<noteq> Some 0"
  shows "list_all is_alnum (col_text cl @ row_text rw)"
    and "col_text cl @ row_text rw = [] \<longleftrightarrow> cl = None \<and> rw = None"
    and "reCell_test (col_text cl @ row_text rw) \<longleftrightarrow> rw \<noteq> None"
proof -
  note c = col_text_props[OF assms(1)]
  note r = row_text_props[OF assms(2,3)]
  show "list_all is_alnum (col_text cl @ row_text rw)"
    using c(1) r(1) by (auto simp: list_all_iff letter_is_alnum digit_is_alnum)
  show "col_text cl @ row_text rw = [] \<longleftrightarrow> cl = None \<and> rw = None"
    using c(3) r(2) by simp
  show "reCell_test (col_text cl @ row_text rw) \<longleftrightarrow> rw \<noteq> None"
    using reCell_test_at[OF c(1,2) r(1)] r(2) by simp
qed

section \<open>What the grammar accepts\<close>

lemma Parser_parseCell_name:
  assumes "rest p = n" and "n \<noteq> []" and "list_all is_alnum n"
  shows "Parser_parseCell p =
     (if reCell_test n
      then Inr \<lparr>ir_sheetName = None, ir_cell1 = Some n, ir_cell2 = Some n\<rparr>
      else Inr \<lparr>ir_sheetName = Some n, ir_cell1 = None, ir_cell2 = None\<rparr>)"
proof -
  have pn: "parseName p = Inr (n, advance (length n) p)"
    and "rest (advance (length n) p) = []"
    using parseName_at[of p n "[]"] assms by simp_all
  then have "peek (advance (length n) p) = EOF" by (simp add: peek_EOF_iff)
  then show ?thesis by (simp add: Parser_parseCell_def pn)
qed

lemma Parser_parseCell_pair:
  assumes "rest p = n @ CHR '':'' # n2" and "n \<noteq> []" and "list_all is_alnum n"
    and "n2 \<noteq> []" and "list_all is_alnum n2"
  shows "Parser_parseCell p = Inr \<lparr>ir_sheetName = None, ir_cell1 = Some n, ir_cell2 = Some n2\<rparr>"
proof -
  let ?p1 = "advance (length n) p"
  have pn: "parseName p = Inr (n, ?p1)" and r1: "rest ?p1 = CHR '':'' # n2"
    using parseName_at[of p n "CHR '':'' # n2"] assms by (simp_all add: colon_not_alnum)
  have pk1: "peek ?p1 = '':''" using r1 by (simp add: peek_rest)
  let ?p2 = "advance (length n2) (next_ch ?p1)"
  have "rest (next_ch ?p1) = n2" using r1 by (simp add: rest_next_ch)
  then have pn2: "parseName (next_ch ?p1) = Inr (n2, ?p2)" and "rest ?p2 = []"
    using parseName_at[of "next_ch ?p1" n2 "[]"] assms by simp_all
  then have pk2: "peek ?p2 = EOF" by (simp add: peek_EOF_iff)
  show ?thesis by (simp add: Parser_parseCell_def pn pk1 pn2 pk2 EOF_def)
qed

lemma Parser_parseCell_sheet_single:
  assumes "rest p = n @ CHR ''!'' # n1" and "n \<noteq> []" and "list_all is_alnum n"
    and "n1 \<noteq> []" and "list_all is_alnum n1"
  shows "Parser_parseCell p = Inr \<lparr>ir_sheetName = Some n, ir_cell1 = Some n1, ir_cell2 = Some n1\<rparr>"
proof -
  let ?p1 = "advance (length n) p"
  have pn: "parseName p = Inr (n, ?p1)" and r1: "rest ?p1 = CHR ''!'' # n1"
    using parseName_at[of p n "CHR ''!'' # n1"] assms by (simp_all add: bang_not_alnum)
  have pk1: "peek ?p1 = ''!''" using r1 by (simp add: peek_rest)
  let ?p2 = "advance (length n1) (next_ch ?p1)"
  have "rest (next_ch ?p1) = n1" using r1 by (simp add: rest_next_ch)
  then have pn2: "parseName (next_ch ?p1) = Inr (n1, ?p2)" and "rest ?p2 = []"
    using parseName_at[of "next_ch ?p1" n1 "[]"] assms by simp_all
  then have pk2: "peek ?p2 = EOF" by (simp add: peek_EOF_iff)
  show ?thesis by (simp add: Parser_parseCell_def pn pk1 pn2 pk2 EOF_def)
qed

lemma Parser_parseCell_sheet_pair:
  assumes "rest p = n @ CHR ''!'' # n1 @ CHR '':'' # n2" and "n \<noteq> []" and "list_all is_alnum n"
    and "n1 \<noteq> []" and "list_all is_alnum n1" and "n2 \<noteq> []" and "list_all is_alnum n2"
  shows "Parser_parseCell p = Inr \<lparr>ir_sheetName = Some n, ir_cell1 = Some n1, ir_cell2 = Some n2\<rparr>"
proof -
  let ?p1 = "advance (length n) p"
  have pn: "parseName p = Inr (n, ?p1)" and r1: "rest ?p1 = CHR ''!'' # n1 @ CHR '':'' # n2"
    using parseName_at[of p n "CHR ''!'' # n1 @ CHR '':'' # n2"] assms
    by (simp_all add: bang_not_alnum)
  have pk1: "peek ?p1 = ''!''" using r1 by (simp add: peek_rest)
  let ?p2 = "advance (length n1) (next_ch ?p1)"
  have "rest (next_ch ?p1) = n1 @ CHR '':'' # n2" using r1 by (simp add: rest_next_ch)
  then have pn2: "parseName (next_ch ?p1) = Inr (n1, ?p2)" and r2: "rest ?p2 = CHR '':'' # n2"
    using parseName_at[of "next_ch ?p1" n1 "CHR '':'' # n2"] assms
    by (simp_all add: colon_not_alnum)
  have pk2: "peek ?p2 = '':''" using r2 by (simp add: peek_rest)
  let ?p3 = "advance (length n2) (next_ch ?p2)"
  have "rest (next_ch ?p2) = n2" using r2 by (simp add: rest_next_ch)
  then have pn3: "parseName (next_ch ?p2) = Inr (n2, ?p3)" and "rest ?p3 = []"
    using parseName_at[of "next_ch ?p2" n2 "[]"] assms by simp_all
  then have pk3: "peek ?p3 = EOF" by (simp add: peek_EOF_iff)
  show ?thesis by (simp add: Parser_parseCell_def pn pk1 pn2 pk2 pn3 pk3 EOF_def)
qed

lemma parseSheetNameAndCell_name:
  assumes "rest p = quote # replace_quotes q @ [quote]" and "q \<noteq> []"
  shows "parseSheetNameAndCell p
     = Some (Inr \<lparr>ir_sheetName = Some q, ir_cell1 = None, ir_cell2 = None\<rparr>)"
proof -
  define p1 where "p1 = advance (length (replace_quotes q) + 2) p"
  have pq: "parseQuotedName p = Some (Inr (q, p1))"
    unfolding p1_def using parseQuotedName_closes[of p q "[]"] assms by simp
  have "rest p1 = []" unfolding p1_def using assms(1) by (simp add: rest_advance)
  then have "peek p1 = EOF" by (simp add: peek_EOF_iff)
  then show ?thesis by (simp add: parseSheetNameAndCell_def pq)
qed

lemma parseSheetNameAndCell_single:
  assumes "rest p = quote # replace_quotes q @ [quote] @ CHR ''!'' # n1" and "q \<noteq> []"
    and "n1 \<noteq> []" and "list_all is_alnum n1"
  shows "parseSheetNameAndCell p
     = Some (Inr \<lparr>ir_sheetName = Some q, ir_cell1 = Some n1, ir_cell2 = Some n1\<rparr>)"
proof -
  define p1 where "p1 = advance (length (replace_quotes q) + 2) p"
  have pq: "parseQuotedName p = Some (Inr (q, p1))"
    unfolding p1_def using parseQuotedName_closes[of p q "CHR ''!'' # n1"] assms
    by (simp add: quote_def)
  have r1: "rest p1 = CHR ''!'' # n1" unfolding p1_def using assms(1) by (simp add: rest_advance)
  then have pk1: "peek p1 = ''!''" by (simp add: peek_rest)
  let ?p2 = "advance (length n1) (next_ch p1)"
  have "rest (next_ch p1) = n1" using r1 by (simp add: rest_next_ch)
  then have pn2: "parseName (next_ch p1) = Inr (n1, ?p2)" and "rest ?p2 = []"
    using parseName_at[of "next_ch p1" n1 "[]"] assms by simp_all
  then have pk2: "peek ?p2 = EOF" by (simp add: peek_EOF_iff)
  show ?thesis by (simp add: parseSheetNameAndCell_def pq pk1 pn2 pk2 EOF_def)
qed

lemma parseSheetNameAndCell_pair:
  assumes "rest p = quote # replace_quotes q @ [quote] @ CHR ''!'' # n1 @ CHR '':'' # n2"
    and "q \<noteq> []" and "n1 \<noteq> []" and "list_all is_alnum n1"
    and "n2 \<noteq> []" and "list_all is_alnum n2"
  shows "parseSheetNameAndCell p
     = Some (Inr \<lparr>ir_sheetName = Some q, ir_cell1 = Some n1, ir_cell2 = Some n2\<rparr>)"
proof -
  define p1 where "p1 = advance (length (replace_quotes q) + 2) p"
  have pq: "parseQuotedName p = Some (Inr (q, p1))"
    unfolding p1_def
    using parseQuotedName_closes[of p q "CHR ''!'' # n1 @ CHR '':'' # n2"] assms
    by (simp add: quote_def)
  have r1: "rest p1 = CHR ''!'' # n1 @ CHR '':'' # n2"
    unfolding p1_def using assms(1) by (simp add: rest_advance)
  then have pk1: "peek p1 = ''!''" by (simp add: peek_rest)
  let ?p2 = "advance (length n1) (next_ch p1)"
  have "rest (next_ch p1) = n1 @ CHR '':'' # n2" using r1 by (simp add: rest_next_ch)
  then have pn2: "parseName (next_ch p1) = Inr (n1, ?p2)" and r2: "rest ?p2 = CHR '':'' # n2"
    using parseName_at[of "next_ch p1" n1 "CHR '':'' # n2"] assms
    by (simp_all add: colon_not_alnum)
  have pk2: "peek ?p2 = '':''" using r2 by (simp add: peek_rest)
  let ?p3 = "advance (length n2) (next_ch ?p2)"
  have "rest (next_ch ?p2) = n2" using r2 by (simp add: rest_next_ch)
  then have pn3: "parseName (next_ch ?p2) = Inr (n2, ?p3)" and "rest ?p3 = []"
    using parseName_at[of "next_ch ?p2" n2 "[]"] assms by simp_all
  then have pk3: "peek ?p3 = EOF" by (simp add: peek_EOF_iff)
  show ?thesis by (simp add: parseSheetNameAndCell_def pq pk1 pn2 pk2 pn3 pk3 EOF_def)
qed

section \<open>What a successful parse returns\<close>

lemma parseSheetNameAndCell_Inr:
  assumes "parseSheetNameAndCell p = Some (Inr ir)"
  shows "\<exists>q. ir_sheetName ir = Some q \<and> q \<noteq> []
           \<and> (\<exists>t. rest p = quote # replace_quotes q @ quote # t)
           \<and> ((ir_cell1 ir = None \<and> ir_cell2 ir = None)
               \<or> (\<exists>c1 c2. ir_cell1 ir = Some c1 \<and> ir_cell2 ir = Some c2 \<and> c1 \<noteq> [] \<and> c2 \<noteq> []))"
proof -
  from assms obtain q p1 where pq: "parseQuotedName p = Some (Inr (q, p1))"
    by (auto simp: parseSheetNameAndCell_def split: option.splits sum.splits)
  note q = parseQuotedName_result[OF pq]
  from assms pq have
    "ir_sheetName ir = Some q \<and> ((ir_cell1 ir = None \<and> ir_cell2 ir = None)
      \<or> (\<exists>c1 c2. ir_cell1 ir = Some c1 \<and> ir_cell2 ir = Some c2 \<and> c1 \<noteq> [] \<and> c2 \<noteq> []))"
    by (auto simp: parseSheetNameAndCell_def split: if_splits sum.splits prod.splits
        dest!: parseName_Inr[THEN conjunct1])
  with q show ?thesis by blast
qed

lemma Parser_parseCell_Inr:
  assumes "Parser_parseCell p = Inr ir"
  shows "(ir_sheetName ir = None
            \<or> (ir_sheetName ir = Some (takeWhile is_alnum (rest p))
                \<and> takeWhile is_alnum (rest p) \<noteq> []))
         \<and> ((ir_cell1 ir = None \<and> ir_cell2 ir = None \<and> ir_sheetName ir \<noteq> None)
             \<or> (\<exists>c1 c2. ir_cell1 ir = Some c1 \<and> ir_cell2 ir = Some c2 \<and> c1 \<noteq> [] \<and> c2 \<noteq> []))"
proof -
  from assms obtain n p1 where pn: "parseName p = Inr (n, p1)"
    by (auto simp: Parser_parseCell_def split: sum.splits)
  from parseName_Inr[OF pn] have n: "n \<noteq> []" "n = takeWhile is_alnum (rest p)" by blast+
  from assms pn have
    "(ir_sheetName ir = None \<or> ir_sheetName ir = Some n)
     \<and> ((ir_cell1 ir = None \<and> ir_cell2 ir = None \<and> ir_sheetName ir \<noteq> None)
         \<or> (\<exists>c1 c2. ir_cell1 ir = Some c1 \<and> ir_cell2 ir = Some c2 \<and> c1 \<noteq> [] \<and> c2 \<noteq> []))"
    using n(1)
    by (auto simp: Parser_parseCell_def split: if_splits sum.splits prod.splits
        dest!: parseName_Inr[THEN conjunct1])
  with n show ?thesis by auto
qed

lemma Parser_parse_Inr:
  assumes "Parser_parse p = Some (Inr ir)"
  shows "(case ir_sheetName ir of None \<Rightarrow> True | Some q \<Rightarrow> q \<noteq> [])
         \<and> ((ir_cell1 ir = None \<and> ir_cell2 ir = None \<and> ir_sheetName ir \<noteq> None)
             \<or> (\<exists>c1 c2. ir_cell1 ir = Some c1 \<and> ir_cell2 ir = Some c2 \<and> c1 \<noteq> [] \<and> c2 \<noteq> []))"
proof (cases "peek p = [quote]")
  case True
  with assms have "parseSheetNameAndCell p = Some (Inr ir)" by (simp add: Parser_parse_def)
  from parseSheetNameAndCell_Inr[OF this] show ?thesis by auto
next
  case False
  with assms have "Parser_parseCell p = Inr ir"
    by (simp add: Parser_parse_def split: if_splits)
  from Parser_parseCell_Inr[OF this] show ?thesis by auto
qed

lemma Parser_parse_sheetName:
  assumes "Parser_parse p = Some (Inr ir)" and "ir_sheetName ir = Some q"
  shows "if peek p = [quote] then \<exists>t. rest p = quote # replace_quotes q @ quote # t
         else q = takeWhile is_alnum (rest p)"
proof (cases "peek p = [quote]")
  case True
  with assms have "parseSheetNameAndCell p = Some (Inr ir)" by (simp add: Parser_parse_def)
  from parseSheetNameAndCell_Inr[OF this] show ?thesis using True assms(2) by auto
next
  case False
  with assms have "Parser_parseCell p = Inr ir"
    by (simp add: Parser_parse_def split: if_splits)
  from Parser_parseCell_Inr[OF this] show ?thesis using False assms(2) by auto
qed

lemma cell_bounds_Some: "c \<noteq> [] \<Longrightarrow> cell_bounds (Some c) = parseCell c"
  by (simp add: cell_bounds_def truthy_str_def)

lemma cell_bounds_None: "cell_bounds None = Inr \<lparr>col = None, row = None\<rparr>"
  by (simp add: cell_bounds_def truthy_str_def)

lemma parse_Inr_cases:
  assumes "parse s = Some (Inr r)"
  obtains ir where "Parser_parse \<lparr>buf = s, index = 0\<rparr> = Some (Inr ir)"
      and "ir_cell1 ir = None" and "ir_cell2 ir = None" and "ir_sheetName ir \<noteq> None"
      and "r = \<lparr>sheetName = ir_sheetName ir, left = None, top = None, right = None, bottom = None\<rparr>"
  | ir c1 c2 b1 b2 where "Parser_parse \<lparr>buf = s, index = 0\<rparr> = Some (Inr ir)"
      and "ir_cell1 ir = Some c1" and "ir_cell2 ir = Some c2" and "c1 \<noteq> []" and "c2 \<noteq> []"
      and "parseCell c1 = Inr b1" and "parseCell c2 = Inr b2"
      and "r = \<lparr>sheetName = ir_sheetName ir, left = col b1, top = row b1,
                right = col b2, bottom = row b2\<rparr>"
proof -
  from assms obtain ir b1 b2 where ir: "Parser_parse \<lparr>buf = s, index = 0\<rparr> = Some (Inr ir)"
    and b1: "cell_bounds (ir_cell1 ir) = Inr b1" and b2: "cell_bounds (ir_cell2 ir) = Inr b2"
    and r: "r = A1Notation_new (ir_sheetName ir) (col b1) (row b1) (col b2) (row b2)"
    by (auto simp: parse_def split: option.splits sum.splits)
  from Parser_parse_Inr[OF ir] consider
    "ir_cell1 ir = None" "ir_cell2 ir = None" "ir_sheetName ir \<noteq> None"
    | c1 c2 where "ir_cell1 ir = Some c1" "ir_cell2 ir = Some c2" "c1 \<noteq> []" "c2 \<noteq> []"
    by auto
  then show thesis
  proof cases
    case 1
    with b1 b2 r have
      "r = \<lparr>sheetName = ir_sheetName ir, left = None, top = None, right = None, bottom = None\<rparr>"
      by (auto simp: cell_bounds_None A1Notation_new_def)
    with ir 1 show thesis by (rule that(1))
  next
    case 2
    with b1 b2 have p1: "parseCell c1 = Inr b1" and p2: "parseCell c2 = Inr b2"
      by (simp_all add: cell_bounds_Some)
    from parseCell_Inr[OF p2 2(4)] have "col b2 \<noteq> None \<or> row b2 \<noteq> None" by simp
    with r have
      "r = \<lparr>sheetName = ir_sheetName ir, left = col b1, top = row b1,
            right = col b2, bottom = row b2\<rparr>"
      by (auto simp: A1Notation_new_def)
    with ir 2 p1 p2 show thesis by (rule that(2))
  qed
qed

lemma parse_parsed_ok:
  assumes "parse s = Some (Inr r)"
  shows "parsed_ok r"
  using assms
proof (cases rule: parse_Inr_cases)
  case (1 ir)
  from Parser_parse_Inr[OF 1(1)] 1 show ?thesis
    by (auto simp: parsed_ok_def col_ok_def row_nonneg_def split: option.splits)
next
  case (2 ir c1 c2 b1 b2)
  from Parser_parse_Inr[OF 2(1)] have "case ir_sheetName ir of None \<Rightarrow> True | Some q \<Rightarrow> q \<noteq> []"
    by simp
  moreover note parseCell_Inr[OF 2(6) 2(4)] parseCell_Inr[OF 2(7) 2(5)]
  ultimately show ?thesis using 2(8) by (auto simp: parsed_ok_def)
qed

text \<open>
  Claim C10. For every input on which \<open>parse\<close> succeeds, a column bound that it sets
  (\<open>left\<close> or \<open>right\<close>) lies between 1 and 18278 inclusive.
\<close>

theorem parsed_columns_in_range:
  "parse s = Some (Inr r) \<Longrightarrow>
   (left r = Some c \<longrightarrow> 1 \<le> c \<and> c \<le> 18278) \<and> (right r = Some c \<longrightarrow> 1 \<le> c \<and> c \<le> 18278)"
  using parse_parsed_ok[of s r] by (auto simp: parsed_ok_def col_ok_def)

theorem parsed_columns_in_range_witness:
  "parse ''A1:ZZZ1''
     = Some (Inr \<lparr>sheetName = None, left = Some 1, top = Some 1, right = Some 18278, bottom = Some 1\<rparr>)
   \<and> (1::int) \<le> 18278"
proof -
  have p: "parse ''A1:ZZZ1''
     = Some (Inr \<lparr>sheetName = None, left = Some 1, top = Some 1, right = Some 18278, bottom = Some 1\<rparr>)"
    by code_simp
  from parsed_columns_in_range[OF p, of 18278] p show ?thesis by simp
qed

section \<open>Parsing what the formatter writes\<close>

lemma Parser_parse_quoted: "rest p = quote # t \<Longrightarrow> Parser_parse p = parseSheetNameAndCell p"
  by (simp add: Parser_parse_def peek_rest)

lemma Parser_parse_unquoted:
  "rest p = c # t \<Longrightarrow> is_alnum c \<Longrightarrow> Parser_parse p = Some (Parser_parseCell p)"
  using quote_not_alnum by (auto simp: Parser_parse_def peek_rest test_alnum_def)

lemma reCell_test_alnum:
  assumes "reCell_test q"
  shows "list_all is_alnum q"
proof -
  from assms obtain m1 m2 where "match_cell q = Some (m1, m2)"
    by (auto simp: reCell_test_def match_cell_def Let_def)
  from match_cell_Some[OF this] show ?thesis
    by (auto simp: list_all_iff letter_is_alnum digit_is_alnum)
qed

lemma replace_quotes_alnum: "list_all is_alnum q \<Longrightarrow> replace_quotes q = q"
  using quote_not_alnum by (induction q) (auto simp: replace_quotes_def)

lemma escapeSheetName_cases:
  assumes "q \<noteq> []"
  obtains (plain) "escapeSheetName q = q" and "list_all is_alnum q" and "\<not> reCell_test q"
  | (quoted) "escapeSheetName q = quote # replace_quotes q @ [quote]"
proof (cases "reCell_test q")
  case True
  then have "replace_quotes q = q" by (simp add: reCell_test_alnum replace_quotes_alnum)
  with True have "escapeSheetName q = quote # replace_quotes q @ [quote]"
    by (simp add: escapeSheetName_def)
  then show thesis by (rule quoted)
next
  case False
  show thesis
  proof (cases "test_all_alnum q")
    case True
    with False have "escapeSheetName q = q" "list_all is_alnum q"
      by (simp_all add: escapeSheetName_def test_all_alnum_def)
    then show thesis using False by (rule plain)
  next
    case nal: False
    with False have "escapeSheetName q = quote # replace_quotes q @ [quote]"
      by (simp add: escapeSheetName_def)
    then show thesis by (rule quoted)
  qed
qed

lemma name_hd: "n \<noteq> [] \<Longrightarrow> list_all is_alnum n \<Longrightarrow> \<exists>c t. n = c # t \<and> is_alnum c"
  by (cases n) auto

lemma Parser_parse_sheet_name:
  assumes "q \<noteq> []"
  shows "Parser_parse \<lparr>buf = escapeSheetName q, index = 0\<rparr>
     = Some (Inr \<lparr>ir_sheetName = Some q, ir_cell1 = None, ir_cell2 = None\<rparr>)"
  using assms
proof (cases rule: escapeSheetName_cases)
  case plain
  let ?p = "\<lparr>buf = escapeSheetName q, index = 0\<rparr>"
  have r: "rest ?p = q" using plain(1) by (simp add: rest_init)
  from name_hd[OF assms plain(2)] obtain c t where "q = c # t" "is_alnum c" by auto
  then have "Parser_parse ?p = Some (Parser_parseCell ?p)"
    using r Parser_parse_unquoted[of ?p c t] by simp
  then show ?thesis using Parser_parseCell_name[OF r assms plain(2)] plain(3) by simp
next
  case quoted
  let ?p = "\<lparr>buf = escapeSheetName q, index = 0\<rparr>"
  have r: "rest ?p = quote # replace_quotes q @ [quote]" using quoted by (simp add: rest_init)
  then have "Parser_parse ?p = parseSheetNameAndCell ?p" by (simp add: Parser_parse_quoted)
  then show ?thesis using parseSheetNameAndCell_name[OF r assms] by simp
qed

lemma Parser_parse_sheet_single:
  assumes "q \<noteq> []" and "n1 \<noteq> []" and "list_all is_alnum n1"
  shows "Parser_parse \<lparr>buf = escapeSheetName q @ ''!'' @ n1, index = 0\<rparr>
     = Some (Inr \<lparr>ir_sheetName = Some q, ir_cell1 = Some n1, ir_cell2 = Some n1\<rparr>)"
  using assms(1)
proof (cases rule: escapeSheetName_cases)
  case plain
  let ?p = "\<lparr>buf = escapeSheetName q @ ''!'' @ n1, index = 0\<rparr>"
  have r: "rest ?p = q @ CHR ''!'' # n1" using plain(1) by (simp add: rest_init)
  from name_hd[OF assms(1) plain(2)] obtain c t where "q = c # t" "is_alnum c" by auto
  then have "Parser_parse ?p = Some (Parser_parseCell ?p)"
    using r Parser_parse_unquoted[of ?p c "t @ CHR ''!'' # n1"] by simp
  then show ?thesis
    using Parser_parseCell_sheet_single[OF r assms(1) plain(2) assms(2,3)] by simp
next
  case quoted
  let ?p = "\<lparr>buf = escapeSheetName q @ ''!'' @ n1, index = 0\<rparr>"
  have r: "rest ?p = quote # replace_quotes q @ [quote] @ CHR ''!'' # n1"
    using quoted by (simp add: rest_init)
  then have "Parser_parse ?p = parseSheetNameAndCell ?p" by (simp add: Parser_parse_quoted)
  then show ?thesis using parseSheetNameAndCell_single[OF r assms] by simp
qed

lemma Parser_parse_sheet_pair:
  assumes "q \<noteq> []" and "n1 \<noteq> []" and "list_all is_alnum n1"
    and "n2 \<noteq> []" and "list_all is_alnum n2"
  shows "Parser_parse \<lparr>buf = escapeSheetName q @ ''!'' @ n1 @ '':'' @ n2, index = 0\<rparr>
     = Some (Inr \<lparr>ir_sheetName = Some q, ir_cell1 = Some n1, ir_cell2 = Some n2\<rparr>)"
  using assms(1)
proof (cases rule: escapeSheetName_cases)
  case plain
  let ?p = "\<lparr>buf = escapeSheetName q @ ''!'' @ n1 @ '':'' @ n2, index = 0\<rparr>"
  have r: "rest ?p = q @ CHR ''!'' # n1 @ CHR '':'' # n2" using plain(1) by (simp add: rest_init)
  from name_hd[OF assms(1) plain(2)] obtain c t where "q = c # t" "is_alnum c" by auto
  then have "Parser_parse ?p = Some (Parser_parseCell ?p)"
    using r Parser_parse_unquoted[of ?p c "t @ CHR ''!'' # n1 @ CHR '':'' # n2"] by simp
  then show ?thesis
    using Parser_parseCell_sheet_pair[OF r assms(1) plain(2) assms(2,3,4,5)] by simp
next
  case quoted
  let ?p = "\<lparr>buf = escapeSheetName q @ ''!'' @ n1 @ '':'' @ n2, index = 0\<rparr>"
  have r: "rest ?p = quote # replace_quotes q @ [quote] @ CHR ''!'' # n1 @ CHR '':'' # n2"
    using quoted by (simp add: rest_init)
  then have "Parser_parse ?p = parseSheetNameAndCell ?p" by (simp add: Parser_parse_quoted)
  then show ?thesis using parseSheetNameAndCell_pair[OF r assms] by simp
qed

lemma Parser_parse_cell_single:
  assumes "n \<noteq> []" and "list_all is_alnum n" and "reCell_test n"
  shows "Parser_parse \<lparr>buf = n, index = 0\<rparr>
     = Some (Inr \<lparr>ir_sheetName = None, ir_cell1 = Some n, ir_cell2 = Some n\<rparr>)"
proof -
  let ?p = "\<lparr>buf = n, index = 0\<rparr>"
  have r: "rest ?p = n" by (simp add: rest_init)
  from name_hd[OF assms(1,2)] obtain c t where "n = c # t" "is_alnum c" by auto
  then have "Parser_parse ?p = Some (Parser_parseCell ?p)"
    using r Parser_parse_unquoted[of ?p c t] by simp
  then show ?thesis using Parser_parseCell_name[OF r assms(1,2)] assms(3) by simp
qed

lemma Parser_parse_cell_pair:
  assumes "n \<noteq> []" and "list_all is_alnum n" and "n2 \<noteq> []" and "list_all is_alnum n2"
  shows "Parser_parse \<lparr>buf = n @ '':'' @ n2, index = 0\<rparr>
     = Some (Inr \<lparr>ir_sheetName = None, ir_cell1 = Some n, ir_cell2 = Some n2\<rparr>)"
proof -
  let ?p = "\<lparr>buf = n @ '':'' @ n2, index = 0\<rparr>"
  have r: "rest ?p = n @ CHR '':'' # n2" by (simp add: rest_init)
  from name_hd[OF assms(1,2)] obtain c t where "n = c # t" "is_alnum c" by auto
  then have "Parser_parse ?p = Some (Parser_parseCell ?p)"
    using r Parser_parse_unquoted[of ?p c "t @ CHR '':'' # n2"] by simp
  then show ?thesis using Parser_parseCell_pair[OF r assms] by simp
qed

lemma parse_from_interim:
  assumes "Parser_parse \<lparr>buf = s, index = 0\<rparr>
             = Some (Inr \<lparr>ir_sheetName = sn, ir_cell1 = Some c1, ir_cell2 = Some c2\<rparr>)"
    and "c1 \<noteq> []" and "c2 \<noteq> []"
    and "parseCell c1 = Inr \<lparr>col = l, row = t\<rparr>" and "parseCell c2 = Inr \<lparr>col = r, row = b\<rparr>"
    and "r \<noteq> None \<or> b \<noteq> None"
  shows "parse s = Some (Inr \<lparr>sheetName = sn, left = l, top = t, right = r, bottom = b\<rparr>)"
  using assms by (auto simp: parse_def cell_bounds_Some A1Notation_new_def)

lemma parse_sheet_only:
  assumes "q \<noteq> []"
  shows "parse (escapeSheetName q)
     = Some (Inr \<lparr>sheetName = Some q, left = None, top = None, right = None, bottom = None\<rparr>)"
  using Parser_parse_sheet_name[OF assms]
  by (simp add: parse_def cell_bounds_None A1Notation_new_def)

lemma roundtrip_parsed_ok:
  assumes ok: "parsed_ok r" and t0: "top r \<noteq> Some 0" and b0: "bottom r \<noteq> Some 0"
  shows "parse (toString r) = Some (Inr r)"
proof -
  obtain sn l t rr b where r:
    "r = \<lparr>sheetName = sn, left = l, top = t, right = rr, bottom = b\<rparr>"
    by (cases r) auto
  from ok r have sn: "case sn of None \<Rightarrow> True | Some q \<Rightarrow> q \<noteq> []"
    and cl: "col_ok l" and cr: "col_ok rr" and rt: "row_nonneg t" and rb: "row_nonneg b"
    and sh: "if l = None \<and> t = None then rr = None \<and> b = None \<and> sn \<noteq> None
             else rr \<noteq> None \<or> b \<noteq> None"
    by (auto simp: parsed_ok_def split: if_splits)
  from t0 b0 r have t0': "t \<noteq> Some 0" and b0': "b \<noteq> Some 0" by simp_all
  define c1 where "c1 = col_text l @ row_text t"
  define c2 where "c2 = col_text rr @ row_text b"
  note n1 = cell_text_name[OF cl rt t0', folded c1_def]
  note n2 = cell_text_name[OF cr rb b0', folded c2_def]
  have p1: "parseCell c1 = Inr \<lparr>col = l, row = t\<rparr>"
    unfolding c1_def using cl rt t0' by (rule parseCell_text)
  have p2: "parseCell c2 = Inr \<lparr>col = rr, row = b\<rparr>"
    unfolding c2_def using cr rb b0' by (rule parseCell_text)
  have tl: "truthy_num l \<longleftrightarrow> l \<noteq> None" and tr: "truthy_num rr \<longleftrightarrow> rr \<noteq> None"
    using cl cr by (auto simp: truthy_num_def col_ok_def split: option.splits)
  have tt: "truthy_num t \<longleftrightarrow> t \<noteq> None" and tb: "truthy_num b \<longleftrightarrow> b \<noteq> None"
    using t0' b0' by (auto simp: truthy_num_def split: option.splits)
  show ?thesis
  proof (cases "l = None \<and> t = None")
    case True
    with sh obtain q where q: "sn = Some q" "rr = None" "b = None" by auto
    with sn have qne: "q \<noteq> []" by simp
    have "toString r = escapeSheetName q"
      using True q qne
      by (simp add: toString_def r col_text_def row_text_def truthy_num_def)
    then show ?thesis using parse_sheet_only[OF qne] True q r by simp
  next
    case False
    with sh have c2some: "rr \<noteq> None \<or> b \<noteq> None" by simp
    from False n1(2) have c1ne: "c1 \<noteq> []" by simp
    from c2some n2(2) have c2ne: "c2 \<noteq> []" by simp
    define single where "single \<longleftrightarrow> l \<noteq> None \<and> t \<noteq> None \<and> l = rr \<and> t = b"
    define cell where "cell = (if single then c1 else c1 @ '':'' @ c2)"
    have cellne: "cell \<noteq> []" using c1ne by (simp add: cell_def)
    have ts: "toString r = (case sn of None \<Rightarrow> cell | Some q \<Rightarrow> escapeSheetName q @ ''!'' @ cell)"
      using sn c1ne c2ne cellne
      by (auto simp add: toString_def r Let_def tl tr tt tb c1_def[symmetric] c2_def[symmetric]
          cell_def single_def split: option.splits)
    define c2' where "c2' = (if single then c1 else c2)"
    have c2'ne: "c2' \<noteq> []" and c2'al: "list_all is_alnum c2'"
      using c1ne c2ne n1(1) n2(1) by (simp_all add: c2'_def)
    have p2': "parseCell c2' = Inr \<lparr>col = rr, row = b\<rparr>"
      using p1 p2 by (auto simp: c2'_def single_def)
    have ir: "Parser_parse \<lparr>buf = toString r, index = 0\<rparr>
        = Some (Inr \<lparr>ir_sheetName = sn, ir_cell1 = Some c1, ir_cell2 = Some c2'\<rparr>)"
    proof (cases sn)
      case None
      show ?thesis
      proof (cases single)
        case True
        then have "reCell_test c1" using n1(3) by (auto simp: single_def)
        from Parser_parse_cell_single[OF c1ne n1(1) this] show ?thesis
          using None True by (simp add: ts cell_def c2'_def)
      next
        case False
        from Parser_parse_cell_pair[OF c1ne n1(1) c2ne n2(1)] show ?thesis
          using None False by (simp add: ts cell_def c2'_def)
      qed
    next
      case (Some q)
      with sn have qne: "q \<noteq> []" by simp
      show ?thesis
      proof (cases single)
        case True
        from Parser_parse_sheet_single[OF qne c1ne n1(1)] show ?thesis
          using Some True by (simp add: ts cell_def c2'_def)
      next
        case False
        from Parser_parse_sheet_pair[OF qne c1ne n1(1) c2ne n2(1)] show ?thesis
          using Some False by (simp add: ts cell_def c2'_def)
      qed
    qed
    from parse_from_interim[OF ir c1ne c2'ne p1 p2' c2some] show ?thesis by (simp add: r)
  qed
qed

text \<open>
  Zero rows apart, and within the integers a JavaScript number holds exactly, parsing
  the text that \<open>toString\<close> writes for a parsed range succeeds and returns that range,
  equal in \<open>sheetName\<close>, \<open>left\<close>, \<open>top\<close>, \<open>right\<close> and \<open>bottom\<close>.
\<close>

lemma roundtrip_nonzero_rows:
  "parse s = Some (Inr r) \<Longrightarrow> exact_nonzero_row (top r) \<Longrightarrow> exact_nonzero_row (bottom r) \<Longrightarrow>
   parse (toString r) = Some (Inr r)"
  using roundtrip_parsed_ok[of r] parse_parsed_ok[of s r]
  by (auto simp: exact_nonzero_row_def split: option.splits)

text \<open>
  Claim C1. For every string that \<open>parse\<close> accepts, formatting the resulting range and
  parsing that text again is to succeed with an equal range. The constructor has no
  check for a bound of 0 (claim C2), so \<open>parse\<close> accepts a row of 0: \<open>0\<close> parses
  to a range with \<open>top = bottom = 0\<close>, which \<open>toString\<close>, skipping a bound that is
  0, writes as the empty text, and \<open>parse\<close> rejects the empty text. In the same way \<open>A0\<close>
  parses with \<open>top = bottom = 0\<close> and is written \<open>A:A\<close>, which parses with no rows.
\<close>

theorem parse_zero_row_not_restored:
  "parse ''0''
     = Some (Inr \<lparr>sheetName = None, left = None, top = Some 0, right = None, bottom = Some 0\<rparr>)
   \<and> toString \<lparr>sheetName = None, left = None, top = Some 0, right = None, bottom = Some 0\<rparr> = []
   \<and> parse (toString \<lparr>sheetName = None, left = None, top = Some 0, right = None,
                       bottom = Some 0\<rparr>) = Some (Inl InvalidCellName)
   \<and> parse ''A0''
     = Some (Inr \<lparr>sheetName = None, left = Some 1, top = Some 0, right = Some 1,
                  bottom = Some 0\<rparr>)
   \<and> toString \<lparr>sheetName = None, left = Some 1, top = Some 0, right = Some 1,
               bottom = Some 0\<rparr> = ''A:A''
   \<and> parse ''A:A''
     = Some (Inr \<lparr>sheetName = None, left = Some 1, top = None, right = Some 1, bottom = None\<rparr>)"
  by code_simp

section \<open>Letter case\<close>

lemma to_upper_lower:
  assumes "is_lower c"
  shows "(of_char (to_upper c) :: int) = of_char c - 32"
proof -
  from assms have "97 \<le> (of_char c :: int)" "(of_char c :: int) \<le> 122"
    by (simp_all add: is_lower_def charCode_a_def charCode_z_def)
  then have "(of_char c - 32) mod 256 = (of_char c - 32 :: int)" by simp
  with assms show ?thesis by (simp add: to_upper_def)
qed

lemma to_lower_upper:
  assumes "is_upper c"
  shows "(of_char (to_lower c) :: int) = of_char c + 32"
proof -
  from assms have "65 \<le> (of_char c :: int)" "(of_char c :: int) \<le> 90"
    by (simp_all add: is_upper_def charCodeA_def charCodeZ_def)
  then have "(of_char c + 32) mod 256 = (of_char c + 32 :: int)" by simp
  with assms show ?thesis by (simp add: to_lower_def)
qed

lemma to_upper_other: "\<not> is_lower c \<Longrightarrow> to_upper c = c"
  by (simp add: to_upper_def)

lemma to_lower_other: "\<not> is_upper c \<Longrightarrow> to_lower c = c"
  by (simp add: to_lower_def)

lemma fromBase26_loop_to_upper: "fromBase26_loop n (map to_upper s) = fromBase26_loop n s"
proof (induction s arbitrary: n)
  case Nil
  show ?case by simp
next
  case (Cons c s)
  show ?case
  proof (cases "is_lower c")
    case True
    then have b: "97 \<le> (of_char c :: int)" "(of_char c :: int) \<le> 122"
      by (simp_all add: is_lower_def charCode_a_def charCode_z_def)
    then show ?thesis using Cons to_upper_lower[OF True]
      by (simp add: Let_def charCodeA_def charCodeZ_def charCode_a_def charCode_z_def)
  next
    case False
    then show ?thesis using Cons by (simp add: to_upper_other Let_def)
  qed
qed

lemma fromBase26_loop_to_lower: "fromBase26_loop n (map to_lower s) = fromBase26_loop n s"
proof (induction s arbitrary: n)
  case Nil
  show ?case by simp
next
  case (Cons c s)
  show ?case
  proof (cases "is_upper c")
    case True
    then have b: "65 \<le> (of_char c :: int)" "(of_char c :: int) \<le> 90"
      by (simp_all add: is_upper_def charCodeA_def charCodeZ_def)
    then show ?thesis using Cons to_lower_upper[OF True]
      by (simp add: Let_def charCodeA_def charCodeZ_def charCode_a_def charCode_z_def)
  next
    case False
    then show ?thesis using Cons by (simp add: to_lower_other Let_def)
  qed
qed

lemma to_upper_classes:
  "is_letter (to_upper c) = is_letter c" "is_digit (to_upper c) = is_digit c"
  "is_digit c \<Longrightarrow> to_upper c = c"
proof -
  show "is_letter (to_upper c) = is_letter c"
  proof (cases "is_lower c")
    case True
    then have "is_upper (to_upper c)"
      using to_upper_lower[OF True]
      by (simp add: is_upper_def is_lower_def charCodeA_def charCodeZ_def charCode_a_def
          charCode_z_def)
    with True show ?thesis by (simp add: is_letter_def)
  next
    case False
    then show ?thesis by (simp add: to_upper_other)
  qed
  show "is_digit (to_upper c) = is_digit c"
  proof (cases "is_lower c")
    case True
    then show ?thesis
      using to_upper_lower[OF True]
      by (simp add: is_digit_def is_lower_def charCode_a_def charCode_z_def)
  next
    case False
    then show ?thesis by (simp add: to_upper_other)
  qed
  show "is_digit c \<Longrightarrow> to_upper c = c"
    by (rule to_upper_other) (simp add: is_digit_def is_lower_def charCode_a_def)
qed

lemma to_lower_classes:
  "is_letter (to_lower c) = is_letter c" "is_digit (to_lower c) = is_digit c"
  "is_digit c \<Longrightarrow> to_lower c = c"
proof -
  show "is_letter (to_lower c) = is_letter c"
  proof (cases "is_upper c")
    case True
    then have "is_lower (to_lower c)"
      using to_lower_upper[OF True]
      by (simp add: is_upper_def is_lower_def charCodeA_def charCodeZ_def charCode_a_def
          charCode_z_def)
    with True show ?thesis by (simp add: is_letter_def)
  next
    case False
    then show ?thesis by (simp add: to_lower_other)
  qed
  show "is_digit (to_lower c) = is_digit c"
  proof (cases "is_upper c")
    case True
    then show ?thesis
      using to_lower_upper[OF True]
      by (simp add: is_digit_def is_upper_def charCodeA_def charCodeZ_def)
  next
    case False
    then show ?thesis by (simp add: to_lower_other)
  qed
  show "is_digit c \<Longrightarrow> to_lower c = c"
    by (rule to_lower_other) (simp add: is_digit_def is_upper_def charCodeA_def)
qed

lemma match_cell_map:
  assumes "\<And>c. is_letter (f c) = is_letter c" and "\<And>c. is_digit (f c) = is_digit c"
    and "\<And>c. is_digit c \<Longrightarrow> f c = c"
    and "match_cell s = Some (m1, m2)"
  shows "match_cell (map f s) = Some (map f m1, m2)"
proof -
  from assms(4) have m1: "m1 = takeWhile is_letter (take 3 s)" and m2: "m2 = drop (length m1) s"
    and d: "list_all is_digit m2"
    by (auto simp: match_cell_def Let_def split: if_splits)
  have "is_letter \<circ> f = is_letter" using assms(1) by (simp add: fun_eq_iff)
  then have a: "takeWhile is_letter (take 3 (map f s)) = map f m1"
    by (simp add: m1 take_map takeWhile_map)
  have "map f m2 = m2" using d assms(3) by (simp add: list_all_iff map_idI)
  then have b: "drop (length (map f m1)) (map f s) = m2" by (simp add: m2 drop_map)
  show ?thesis unfolding match_cell_def Let_def a b using d by simp
qed

lemma parseCell_map:
  assumes "\<And>c. is_letter (f c) = is_letter c" and "\<And>c. is_digit (f c) = is_digit c"
    and "\<And>c. is_digit c \<Longrightarrow> f c = c"
    and "\<And>m. fromBase26 (map f m) = fromBase26 m"
    and "parseCell s = Inr c"
  shows "parseCell (map f s) = Inr c"
proof -
  from assms(5) obtain m1 m2 where m: "match_cell s = Some (m1, m2)"
    by (auto simp: parseCell_def split: option.splits)
  have m': "match_cell (map f s) = Some (map f m1, m2)"
    using assms(1,2,3) m by (rule match_cell_map)
  have "parseCell (map f s) = parseCell s"
    by (simp add: parseCell_def m m' assms(4))
  with assms(5) show ?thesis by simp
qed

lemma parse_sheetName_verbatim:
  assumes "parse s = Some (Inr r)" and "sheetName r = Some q"
  shows "if take 1 s = [quote]
         then take (length (replace_quotes q) + 2) s = quote # replace_quotes q @ [quote]
         else q = takeWhile is_alnum s"
proof -
  let ?p = "\<lparr>buf = s, index = 0\<rparr>"
  from assms(1) obtain ir where ir: "Parser_parse ?p = Some (Inr ir)"
    and sn: "sheetName r = ir_sheetName ir"
    by (cases rule: parse_Inr_cases) auto
  have pk: "peek ?p = [quote] \<longleftrightarrow> take 1 s = [quote]"
    by (cases s) (auto simp: peek_rest rest_init EOF_def)
  from sn assms(2) have q: "ir_sheetName ir = Some q" by simp
  show ?thesis
  proof (cases "take 1 s = [quote]")
    case True
    with pk Parser_parse_sheetName[OF ir q] obtain t where
      "s = quote # replace_quotes q @ quote # t" by (auto simp: rest_init)
    then have "take (length (replace_quotes q) + 2) s = quote # replace_quotes q @ [quote]"
      by simp
    with True show ?thesis by simp
  next
    case False
    with pk Parser_parse_sheetName[OF ir q] show ?thesis by (simp add: rest_init)
  qed
qed

text \<open>
  Claim C8. \<open>parse "a1"\<close> and \<open>parse "A1"\<close> yield identical bounds; more generally the
  column letters are decoded without regard to case: \<open>fromBase26\<close> gives the same result
  on a text and on its upper-case and lower-case forms, and so does \<open>parseCell\<close> on every
  fragment it accepts. The letters of a parsed sheet name are kept exactly as written:
  the sheet name of the result is the leading run of letters and digits of the input
  or, for an input that opens with a quote, the text whose quoted form (quotes doubled,
  between two quotes) opens the input.
\<close>

theorem column_letters_case_insensitive:
  "parse ''a1''
     = Some (Inr \<lparr>sheetName = None, left = Some 1, top = Some 1, right = Some 1, bottom = Some 1\<rparr>)
   \<and> parse ''A1'' = parse ''a1''
   \<and> fromBase26 (map to_upper m) = fromBase26 m
   \<and> fromBase26 (map to_lower m) = fromBase26 m
   \<and> (parseCell s = Inr c \<longrightarrow>
        parseCell (map to_upper s) = Inr c \<and> parseCell (map to_lower s) = Inr c)
   \<and> (parse s' = Some (Inr r) \<and> sheetName r = Some q \<longrightarrow>
        (if take 1 s' = [quote]
         then take (length (replace_quotes q) + 2) s' = quote # replace_quotes q @ [quote]
         else q = takeWhile is_alnum s'))"
proof -
  have a: "parse ''a1''
     = Some (Inr \<lparr>sheetName = None, left = Some 1, top = Some 1, right = Some 1, bottom = Some 1\<rparr>)"
    by code_simp
  have b: "parse ''A1'' = parse ''a1''" by code_simp
  have u: "fromBase26 (map to_upper m) = fromBase26 m" for m
    by (simp add: fromBase26_def fromBase26_loop_to_upper)
  have l: "fromBase26 (map to_lower m) = fromBase26 m" for m
    by (simp add: fromBase26_def fromBase26_loop_to_lower)
  have pu: "parseCell (map to_upper s) = Inr c" if "parseCell s = Inr c"
    using to_upper_classes u that by (rule parseCell_map)
  have pl: "parseCell (map to_lower s) = Inr c" if "parseCell s = Inr c"
    using to_lower_classes l that by (rule parseCell_map)
  from a b u l pu pl parse_sheetName_verbatim[of s' r q] show ?thesis by blast
qed

theorem column_letters_case_insensitive_witness:
  "parseCell ''zZ12'' = Inr \<lparr>col = Some 702, row = Some 12\<rparr>
   \<and> parseCell ''ZZ12'' = Inr \<lparr>col = Some 702, row = Some 12\<rparr>
   \<and> parseCell ''zz12'' = Inr \<lparr>col = Some 702, row = Some 12\<rparr>
   \<and> parse ''sHeEt1!b2''
       = Some (Inr \<lparr>sheetName = Some ''sHeEt1'', left = Some 2, top = Some 2, right = Some 2,
                    bottom = Some 2\<rparr>)
   \<and> takeWhile is_alnum ''sHeEt1!b2'' = ''sHeEt1''"
proof -
  let ?r = "\<lparr>sheetName = Some ''sHeEt1'', left = Some 2, top = Some 2, right = Some 2,
             bottom = Some 2\<rparr>"
  have pc: "parseCell ''zZ12'' = Inr \<lparr>col = Some 702, row = Some 12\<rparr>" by code_simp
  have mu: "map to_upper ''zZ12'' = ''ZZ12''" by code_simp
  have ml: "map to_lower ''zZ12'' = ''zz12''" by code_simp
  have p: "parse ''sHeEt1!b2'' = Some (Inr ?r)" by code_simp
  have sn: "sheetName ?r = Some ''sHeEt1''" by simp
  have nq: "take 1 ''sHeEt1!b2'' \<noteq> [quote]" by (simp add: quote_def)
  from column_letters_case_insensitive[of "[]" "''zZ12''" "\<lparr>col = Some 702, row = Some 12\<rparr>"
      "''sHeEt1!b2''" ?r "''sHeEt1''"] pc mu ml p sn nq
  show ?thesis by simp
qed

section \<open>Where the two revisions agree\<close>

lemma parse_old_eq_parse:
  assumes "Parser_parse_old \<lparr>buf = s, index = 0\<rparr> = Parser_parse \<lparr>buf = s, index = 0\<rparr>"
  shows "parse_old s = parse s"
proof (cases "Parser_parse \<lparr>buf = s, index = 0\<rparr>")
  case None
  with assms show ?thesis by (simp add: parse_old_def parse_def)
next
  case (Some x)
  show ?thesis
  proof (cases x)
    case (Inl e)
    with Some assms show ?thesis by (simp add: parse_old_def parse_def)
  next
    case (Inr ir)
    with Some have ir: "Parser_parse \<lparr>buf = s, index = 0\<rparr> = Some (Inr ir)" by simp
    have a0: "A1Notation_new_old None None None None None
        = \<lparr>sheetName = None, left = None, top = None, right = None, bottom = None\<rparr>"
      by (simp add: A1Notation_new_old_def num_or_def truthy_num_def)
    from Parser_parse_Inr[OF ir] have sn: "truthy_str (ir_sheetName ir) \<or> ir_sheetName ir = None"
      by (auto simp: truthy_str_def split: option.splits)
    from Parser_parse_Inr[OF ir] consider
      "ir_cell1 ir = None" "ir_cell2 ir = None" "ir_sheetName ir \<noteq> None"
      | c1 c2 where "ir_cell1 ir = Some c1" "ir_cell2 ir = Some c2" "c1 \<noteq> []" "c2 \<noteq> []"
      by auto
    then show ?thesis
    proof cases
      case 1
      with sn ir assms show ?thesis
        by (auto simp: parse_old_def parse_def a0 Let_def truthy_str_def cell_bounds_None
            A1Notation_new_def)
    next
      case 2
      show ?thesis
      proof (cases "parseCell c1")
        case (Inl e)
        with 2 ir assms show ?thesis
          by (simp add: parse_old_def parse_def Let_def truthy_str_def cell_bounds_Some)
      next
        case b1: (Inr b1)
        show ?thesis
        proof (cases "parseCell c2")
          case (Inl e)
          with 2 b1 ir assms show ?thesis
            by (simp add: parse_old_def parse_def Let_def truthy_str_def cell_bounds_Some)
        next
          case b2: (Inr b2)
          from parseCell_Inr[OF b2 2(4)] have "col b2 \<noteq> None \<or> row b2 \<noteq> None" by simp
          with 2 b1 b2 ir assms sn show ?thesis
            by (auto simp: parse_old_def parse_def a0 Let_def truthy_str_def cell_bounds_Some
                A1Notation_new_def)
        qed
      qed
    qed
  qed
qed

lemma parse_old_unquoted: "take 1 s \<noteq> [quote] \<Longrightarrow> parse_old s = parse s"
proof (rule parse_old_eq_parse)
  assume "take 1 s \<noteq> [quote]"
  then have "peek \<lparr>buf = s, index = 0\<rparr> \<noteq> [quote]"
    by (cases s) (auto simp: peek_rest rest_init EOF_def)
  then show "Parser_parse_old \<lparr>buf = s, index = 0\<rparr> = Parser_parse \<lparr>buf = s, index = 0\<rparr>"
    by (simp add: Parser_parse_old_def Parser_parse_def)
qed

section \<open>The test vectors of the repository\<close>

lemma test_parse_valid:
  "parse ''Sheet1!A1:B2''
     = Some (Inr \<lparr>sheetName = Some ''Sheet1'', left = Some 1, top = Some 1, right = Some 2,
                  bottom = Some 2\<rparr>)"
  "parse ''Sheet1!A:A''
     = Some (Inr \<lparr>sheetName = Some ''Sheet1'', left = Some 1, top = None, right = Some 1,
                  bottom = None\<rparr>)"
  "parse ''Sheet1!1:2''
     = Some (Inr \<lparr>sheetName = Some ''Sheet1'', left = None, top = Some 1, right = None,
                  bottom = Some 2\<rparr>)"
  "parse ''Sheet1!A5:A''
     = Some (Inr \<lparr>sheetName = Some ''Sheet1'', left = Some 1, top = Some 5, right = Some 1,
                  bottom = None\<rparr>)"
  "parse ''Sheet1''
     = Some (Inr \<lparr>sheetName = Some ''Sheet1'', left = None, top = None, right = None,
                  bottom = None\<rparr>)"
  "parse (quote # ''My Custom Sheet'' @ quote # ''!A:A'')
     = Some (Inr \<lparr>sheetName = Some ''My Custom Sheet'', left = Some 1, top = None,
                  right = Some 1, bottom = None\<rparr>)"
  "parse (quote # ''A1'' @ [quote])
     = Some (Inr \<lparr>sheetName = Some ''A1'', left = None, top = None, right = None,
                  bottom = None\<rparr>)"
  "parse ''ZZZ1''
     = Some (Inr \<lparr>sheetName = None, left = Some 18278, top = Some 1, right = Some 18278,
                  bottom = Some 1\<rparr>)"
  "parse ''AAAA1''
     = Some (Inr \<lparr>sheetName = Some ''AAAA1'', left = None, top = None, right = None,
                  bottom = None\<rparr>)"
  "parse ''A''
     = Some (Inr \<lparr>sheetName = Some ''A'', left = None, top = None, right = None,
                  bottom = None\<rparr>)"
  by code_simp+

lemma test_parse_invalid:
  "parse ''Sheet1!A1:'' = Some (Inl InvalidCellName)"
  "parse ''Sheet1!A1:B2:C3'' = Some (Inl (ExpectedEOF '':''))"
  "parse ''AAAA1:ZZZ1'' = Some (Inl (InvalidCellNameOf ''AAAA1''))"
  "parse (quote # ''Sheet1'' @ quote # ''?'') = Some (Inl (ExpectedBang ''?''))"
  "parse ''Sheet1!A1?B2'' = Some (Inl (UnexpectedCharacter ''?''))"
  "parse (quote # ''Sheet1'' @ quote # ''!A1?B2'') = Some (Inl (ExpectedColon ''?''))"
  by code_simp+

lemma test_toString:
  "toString (A1Notation_new (Some ''Sheet1'') (Some 1) (Some 1) (Some 2) (Some 2)) = ''Sheet1!A1:B2''"
  "toString (A1Notation_new (Some ''Sheet1'') (Some 1) None (Some 1) None) = ''Sheet1!A:A''"
  "toString (A1Notation_new (Some ''Sheet1'') None (Some 1) None (Some 2)) = ''Sheet1!1:2''"
  "toString (A1Notation_new (Some ''Sheet1'') (Some 1) (Some 5) (Some 1) None) = ''Sheet1!A5:A''"
  "toString (A1Notation_new (Some ''My Custom Sheet'') None None None None)
     = quote # ''My Custom Sheet'' @ [quote]"
  "toString (A1Notation_new None (Some 1) (Some 1) None None) = ''A1''"
  "toString (A1Notation_new (Some ''A1'') None None None None) = quote # ''A1'' @ [quote]"
  "toString (A1Notation_new None (Some 18278) (Some 1) (Some 18278) (Some 1)) = ''ZZZ1''"
  "toString (A1Notation_new (Some ''AAAA1'') None None None None) = ''AAAA1''"
  by code_simp+

section \<open>The patterns, declaratively\<close>

text \<open>The two functions that stand for the regular expressions agree with the reading
  of the patterns as sets of strings: up to three letters followed by digits to the end.\<close>

lemma match_cell_iff:
  "match_cell s = Some (m1, m2) \<longleftrightarrow>
     s = m1 @ m2 \<and> list_all is_letter m1 \<and> length m1 \<le> 3 \<and> list_all is_digit m2"
  using match_cell_Some[of s m1 m2] match_cell_at[of m1 m2] by auto

lemma reCell_test_iff:
  "reCell_test s \<longleftrightarrow>
     (\<exists>m1 m2. s = m1 @ m2 \<and> list_all is_letter m1 \<and> length m1 \<le> 3
        \<and> list_all is_digit m2 \<and> m2 \<noteq> [])"
proof
  assume a: "reCell_test s"
  then obtain m1 m2 where m: "match_cell s = Some (m1, m2)" and "m2 \<noteq> []"
    by (auto simp: reCell_test_def match_cell_def Let_def)
  with match_cell_Some[OF m] show
    "\<exists>m1 m2. s = m1 @ m2 \<and> list_all is_letter m1 \<and> length m1 \<le> 3
        \<and> list_all is_digit m2 \<and> m2 \<noteq> []"
    by blast
next
  assume "\<exists>m1 m2. s = m1 @ m2 \<and> list_all is_letter m1 \<and> length m1 \<le> 3
        \<and> list_all is_digit m2 \<and> m2 \<noteq> []"
  then show "reCell_test s" by (auto simp: reCell_test_at)
qed

section \<open>The constructor of the earlier revision\<close>

text \<open>The earlier revision takes \<open>(sheetName, top, bottom, left, right)\<close> and defaults
  \<open>left\<close> to \<open>top\<close> and \<open>right\<close> to the \<open>left\<close> argument; it does not default \<open>bottom\<close>.
  Called as in the example of the documentation it formats to another text.\<close>

lemma constructor_old_example:
  "A1Notation_new_old (Some ''Sheet1'') (Some 3) (Some 2) None None
     = \<lparr>sheetName = Some ''Sheet1'', left = Some 3, top = Some 3, right = None, bottom = Some 2\<rparr>"
  "toString (A1Notation_new_old (Some ''Sheet1'') (Some 3) (Some 2) None None) = ''Sheet1!C3:2''"
  by code_simp+

end
